theory Spec2Isabelle
  imports Complex_Main "HOL-Library.Word"
begin

section \<open>Fashion-MNIST tutorial notebook: data pipeline, classifier, training and evaluation\<close>

text \<open>
  The development follows the code cells of \<^verbatim>\<open>notebook/Fashion-MNIST.ipynb\<close>.
  Python exceptions are values of the type \<open>error\<close>; a computation that may raise
  returns \<open>error + 'a\<close> with \<open>Inl\<close> for the exception.  Bytes are \<open>8 word\<close>.
  Floating-point numbers are idealised as \<open>real\<close>, without rounding, except in the
  double-precision model of \<^verbatim>\<open>standardize\<close> (type \<open>f64\<close>), where every operation rounds.
\<close>

datatype error =
  OSError | ValueError | IndexError | ZeroDivisionError | RuntimeError | EmptyDatasetError

subsection \<open>Reading the dataset: \<^verbatim>\<open>load_fmnist\<close>\<close>

text \<open>
  \<^verbatim>\<open>gzip.open(path, 'rb').read()\<close>: the decompressed content of the file, or an
  \<^verbatim>\<open>OSError\<close> when the file is missing or unreadable.  The file system is the
  caller's: a file is given as \<open>Some\<close> of its decompressed bytes, or \<open>None\<close>.
\<close>

definition gzip_read :: "8 word list option \<Rightarrow> error + 8 word list" where
  "gzip_read file = (case file of None \<Rightarrow> Inl OSError | Some bytes \<Rightarrow> Inr bytes)"

text \<open>
  \<^verbatim>\<open>np.frombuffer(buf, dtype=np.uint8, offset=k)\<close>: the bytes after the first \<open>k\<close>;
  numpy raises \<^verbatim>\<open>ValueError\<close> when the offset is greater than the buffer length.
\<close>

definition frombuffer :: "8 word list \<Rightarrow> nat \<Rightarrow> error + 8 word list" where
  "frombuffer buf offset =
     (if length buf < offset then Inl ValueError else Inr (drop offset buf))"

text \<open>
  \<^verbatim>\<open>a.reshape(n, c)\<close> of a one-dimensional array, row-major: row \<open>i\<close> holds the
  elements \<open>i * c\<close> to \<open>i * c + c - 1\<close>; numpy raises \<^verbatim>\<open>ValueError\<close> when the
  size of the array is not \<open>n * c\<close>.
\<close>

definition rows_of :: "nat \<Rightarrow> nat \<Rightarrow> 'a list \<Rightarrow> 'a list list" where
  "rows_of n c xs = map (\<lambda>i. take c (drop (i * c) xs)) [0..<n]"

definition reshape2 :: "nat \<Rightarrow> nat \<Rightarrow> 'a list \<Rightarrow> error + 'a list list" where
  "reshape2 n c xs = (if length xs \<noteq> n * c then Inl ValueError else Inr (rows_of n c xs))"

definition bind_err :: "error + 'a \<Rightarrow> ('a \<Rightarrow> error + 'b) \<Rightarrow> error + 'b" where
  "bind_err m f = (case m of Inl e \<Rightarrow> Inl e | Inr x \<Rightarrow> f x)"

definition load_fmnist ::
  "8 word list option \<Rightarrow> 8 word list option \<Rightarrow> error + (8 word list list \<times> 8 word list)" where
  "load_fmnist labels_file images_file =
     bind_err (gzip_read labels_file) (\<lambda>lbytes.
     bind_err (frombuffer lbytes 8) (\<lambda>labels.
     bind_err (gzip_read images_file) (\<lambda>ibytes.
     bind_err (frombuffer ibytes 16) (\<lambda>flat.
     bind_err (reshape2 (length labels) 784 flat) (\<lambda>images.
     Inr (images, labels))))))"

subsection \<open>Preprocessing: \<^verbatim>\<open>standardize\<close> and the reshape to image tensors\<close>

text \<open>
  A two-dimensional array is the list of its rows.  \<^verbatim>\<open>ndarray.mean()\<close> and
  \<^verbatim>\<open>ndarray.var()\<close> without an axis work on the flattened array: the mean of all
  elements, and the mean of the squared deviations from it.  An array of bytes is
  converted to floating point by the arithmetic with the mean (\<open>to_float\<close>).
\<close>

definition to_float :: "8 word list list \<Rightarrow> real list list" where
  "to_float ndarray = map (map (\<lambda>b. real (unat b))) ndarray"

definition np_mean :: "real list \<Rightarrow> real" where
  "np_mean xs = sum_list xs / real (length xs)"

definition np_var :: "real list \<Rightarrow> real" where
  "np_var xs = np_mean (map (\<lambda>x. (x - np_mean xs)\<^sup>2) xs)"

definition standardize :: "real list list \<Rightarrow> real list list" where
  "standardize ndarray =
     map (map (\<lambda>v. (v - np_mean (concat ndarray)) / sqrt (np_var (concat ndarray) + 1 / 100000)))
       ndarray"

text \<open>
  \<^verbatim>\<open>X.reshape(-1, c, h, w)\<close>: the elements in row-major order, cut into blocks of
  \<open>c * h * w\<close>, each block into \<open>c\<close> channels of \<open>h\<close> rows of \<open>w\<close> elements.  The
  first dimension is inferred; numpy raises \<^verbatim>\<open>ValueError\<close> when the size is not a
  multiple of \<open>c * h * w\<close>.  The notebook calls it with \<open>(-1, 1, 28, 28)\<close>.
\<close>

definition reshape4 :: "nat \<Rightarrow> nat \<Rightarrow> nat \<Rightarrow> 'a list \<Rightarrow> error + 'a list list list list" where
  "reshape4 c h w flat =
     (if c * h * w = 0 \<or> length flat mod (c * h * w) \<noteq> 0 then Inl ValueError
      else Inr (map (\<lambda>img. map (rows_of h w) (rows_of c (h * w) img))
                  (rows_of (length flat div (c * h * w)) (c * h * w) flat)))"

definition reshape_images :: "'a list list \<Rightarrow> error + 'a list list list list" where
  "reshape_images X = reshape4 1 28 28 (concat X)"

text \<open>
  The preprocessing cells in sequence, on the images as read: \<^verbatim>\<open>standardize\<close>, then
  the reshape.
\<close>

definition preprocess :: "8 word list list \<Rightarrow> error + real list list list list" where
  "preprocess X = reshape_images (standardize (to_float X))"

text \<open>Flattening a four-dimensional array back to its row-major element sequence.\<close>

definition ravel4 :: "'a list list list list \<Rightarrow> 'a list" where
  "ravel4 t = concat (concat (concat t))"

subsection \<open>Preprocessing in double precision\<close>

text \<open>
  numpy computes \<^verbatim>\<open>standardize\<close> in IEEE 754 double precision: every operation gives
  the exact result rounded to the nearest double, a tie going to the even significand.
  \<open>round_even\<close> rounds a real number to the nearest integer in that way.  \<open>fl\<close> rounds
  a real number to 53 significant bits: \<open>exponent x\<close> is the binary exponent of \<open>x\<close>,
  not below \<open>- 1022\<close> (the subnormal numbers share the spacing \<open>2 powi (- 1074)\<close>), and
  \<open>ulp x\<close> is the spacing of the doubles at \<open>x\<close>.
\<close>

definition round_even :: "real \<Rightarrow> int" where
  "round_even x =
     (let f = \<lfloor>x\<rfloor>; r = x - of_int f
      in if r < 1 / 2 then f else if 1 / 2 < r then f + 1 else if even f then f else f + 1)"

definition exponent :: "real \<Rightarrow> int" where
  "exponent x = max \<lfloor>log 2 \<bar>x\<bar>\<rfloor> (- 1022)"

definition ulp :: "real \<Rightarrow> real" where
  "ulp x = 2 powi (exponent x - 52)"

definition fl :: "real \<Rightarrow> real" where
  "fl x = (if x = 0 then 0 else of_int (round_even (x / ulp x)) * ulp x)"

text \<open>
  A double is a finite number, an infinity or NaN.  A finite double is the real number
  it stands for; the sign of a zero is not kept (a zero divisor counts as \<open>+0\<close>).
  \<open>rnd\<close> is the rounding of an exact result: \<open>fl\<close>, and an infinity when the rounded
  number reaches \<open>2 ^ 1024\<close>.
\<close>

datatype f64 = Finite real | PInf | MInf | NaN

definition rnd :: "real \<Rightarrow> f64" where
  "rnd x =
     (let r = fl x
      in if 2 ^ 1024 \<le> r then PInf else if r \<le> - (2 ^ 1024) then MInf else Finite r)"

text \<open>
  The arithmetic of numpy on doubles.  No operation raises: a division by zero gives an
  infinity or NaN, the square root of a negative number gives NaN.
\<close>

fun fneg :: "f64 \<Rightarrow> f64" where
  "fneg (Finite x) = Finite (- x)"
| "fneg PInf = MInf"
| "fneg MInf = PInf"
| "fneg NaN = NaN"

fun fadd :: "f64 \<Rightarrow> f64 \<Rightarrow> f64" where
  "fadd (Finite x) (Finite y) = rnd (x + y)"
| "fadd NaN b = NaN"
| "fadd a NaN = NaN"
| "fadd PInf MInf = NaN"
| "fadd MInf PInf = NaN"
| "fadd PInf b = PInf"
| "fadd a PInf = PInf"
| "fadd MInf b = MInf"
| "fadd a MInf = MInf"

definition fsub :: "f64 \<Rightarrow> f64 \<Rightarrow> f64" where
  "fsub a b = fadd a (fneg b)"

fun fmul :: "f64 \<Rightarrow> f64 \<Rightarrow> f64" where
  "fmul (Finite x) (Finite y) = rnd (x * y)"
| "fmul NaN b = NaN"
| "fmul a NaN = NaN"
| "fmul (Finite x) b = (if x = 0 then NaN else if 0 < x then b else fneg b)"
| "fmul a (Finite y) = (if y = 0 then NaN else if 0 < y then a else fneg a)"
| "fmul PInf b = b"
| "fmul MInf b = fneg b"

fun fdiv :: "f64 \<Rightarrow> f64 \<Rightarrow> f64" where
  "fdiv (Finite x) (Finite y) =
     (if y = 0 then (if x = 0 then NaN else if 0 < x then PInf else MInf) else rnd (x / y))"
| "fdiv NaN b = NaN"
| "fdiv a NaN = NaN"
| "fdiv (Finite x) b = Finite 0"
| "fdiv a (Finite y) = (if 0 \<le> y then a else fneg a)"
| "fdiv a b = NaN"

fun fsqrt :: "f64 \<Rightarrow> f64" where
  "fsqrt (Finite x) = (if x < 0 then NaN else rnd (sqrt x))"
| "fsqrt PInf = PInf"
| "fsqrt MInf = NaN"
| "fsqrt NaN = NaN"

text \<open>
  \<^verbatim>\<open>ndarray.mean()\<close> and \<^verbatim>\<open>ndarray.var()\<close> add the elements of the flattened array with
  \<^verbatim>\<open>np.add.reduce\<close>, in an order that depends on the length of the array and on the
  numpy build (blocks added pairwise).  The order is a parameter here: for each length
  a tree whose leaves are the indices of the elements and whose inner nodes are the
  additions.  \<open>summation_order t n\<close> says that \<open>t\<close> adds each of \<open>n\<close> elements once.  The
  sum of an empty array is 0.
\<close>

datatype sum_order = Elem nat | Add sum_order sum_order

fun sum_in :: "sum_order \<Rightarrow> f64 list \<Rightarrow> f64" where
  "sum_in (Elem i) xs = xs ! i"
| "sum_in (Add l r) xs = fadd (sum_in l xs) (sum_in r xs)"

fun elems :: "sum_order \<Rightarrow> nat list" where
  "elems (Elem i) = [i]"
| "elems (Add l r) = elems l @ elems r"

definition summation_order :: "sum_order \<Rightarrow> nat \<Rightarrow> bool" where
  "summation_order t n = (distinct (elems t) \<and> set (elems t) = {0..<n})"

definition np_sum_f64 :: "(nat \<Rightarrow> sum_order) \<Rightarrow> f64 list \<Rightarrow> f64" where
  "np_sum_f64 order xs = (if xs = [] then Finite 0 else sum_in (order (length xs)) xs)"

text \<open>
  The mean is the sum divided by the number of elements.  The variance follows numpy's
  \<^verbatim>\<open>_var\<close>: the deviations from the mean, their squares, the sum of the squares, divided
  by the number of elements.  An empty array gives \<open>0 / 0\<close>, which is NaN.
\<close>

definition np_mean_f64 :: "(nat \<Rightarrow> sum_order) \<Rightarrow> f64 list \<Rightarrow> f64" where
  "np_mean_f64 order xs = fdiv (np_sum_f64 order xs) (rnd (real (length xs)))"

definition np_var_f64 :: "(nat \<Rightarrow> sum_order) \<Rightarrow> f64 list \<Rightarrow> f64" where
  "np_var_f64 order xs =
     (let arrmean = np_mean_f64 order xs;
          x = map (\<lambda>v. fsub v arrmean) xs;
          x = map (\<lambda>v. fmul v v) x
      in fdiv (np_sum_f64 order x) (rnd (real (length xs))))"

text \<open>
  \<^verbatim>\<open>(ndarray - ndarray.mean()) / np.sqrt(ndarray.var() + 1e-5)\<close> on doubles; the literal
  \<^verbatim>\<open>1e-5\<close> is the double nearest to \<open>1 / 100000\<close>.
\<close>

definition standardize_f64 :: "(nat \<Rightarrow> sum_order) \<Rightarrow> f64 list list \<Rightarrow> f64 list list" where
  "standardize_f64 order ndarray =
     (let mean = np_mean_f64 order (concat ndarray);
          denom = fsqrt (fadd (np_var_f64 order (concat ndarray)) (rnd (1 / 100000)))
      in map (map (\<lambda>v. fdiv (fsub v mean) denom)) ndarray)"

text \<open>An order for every length: from left to right, as an accumulation loop adds.\<close>

fun left_to_right :: "nat \<Rightarrow> sum_order" where
  "left_to_right 0 = Elem 0"
| "left_to_right (Suc n) = (if n = 0 then Elem 0 else Add (left_to_right n) (Elem n))"

subsection \<open>Batching: the \<^verbatim>\<open>DataLoader\<close>\<close>

text \<open>
  Modelled from the spec: the batching of \<^verbatim>\<open>torch.utils.data.DataLoader\<close>, which is
  library code and not part of the notebook.  Section 4.3 of the specification: at the
  start of each epoch a new permutation of the sample indices, then consecutive slices
  of \<open>B\<close> indices until exhausted, the final slice holding the remainder when \<open>N\<close> is
  not divisible by \<open>B\<close>; \<^verbatim>\<open>EmptyDatasetError\<close> over zero samples.  The permutation
  comes from the random source and is an argument here.  The specification says nothing
  about \<open>B = 0\<close>: no batch then.
\<close>

function slices :: "nat \<Rightarrow> 'a list \<Rightarrow> 'a list list" where
  "slices B xs = (if B = 0 \<or> xs = [] then [] else take B xs # slices B (drop B xs))"
  by pat_completeness auto
termination
  by (relation "measure (\<lambda>(B, xs). length xs)") auto

declare slices.simps [simp del]

definition data_loader ::
  "'x list \<Rightarrow> 'y list \<Rightarrow> nat \<Rightarrow> nat list \<Rightarrow> error + ('x list \<times> 'y list) list" where
  "data_loader X y B perm =
     (if X = [] then Inl EmptyDatasetError
      else Inr (map (\<lambda>idx. (map (\<lambda>i. X ! i) idx, map (\<lambda>i. y ! i) idx)) (slices B perm)))"

subsection \<open>The classifier: class \<^verbatim>\<open>CNN\<close>\<close>

text \<open>
  The layers are those of \<^verbatim>\<open>torch.nn\<close>, with their documented arithmetic over the
  reals.  A sample is a list of channels, a channel a list of rows; a batch is a list of
  samples.  A layer applied to an input of the wrong shape raises \<^verbatim>\<open>RuntimeError\<close>.
  The values of the weights are the library's (random initialisation, then training): a
  layer is built from its configuration and its weights.
\<close>

record conv2d =
  in_channels :: nat
  out_channels :: nat
  kernel_size :: nat
  conv_weight :: "real list list list list"
  conv_bias :: "real list"

record maxpool2d =
  pool_size :: nat
  stride :: nat

record linear =
  in_features :: nat
  out_features :: nat
  lin_weight :: "real list list"
  lin_bias :: "real list"

definition Conv2d :: "nat \<Rightarrow> nat \<Rightarrow> nat \<Rightarrow> real list list list list \<Rightarrow> real list \<Rightarrow> conv2d" where
  "Conv2d nb_in nb_out k w b =
     \<lparr>in_channels = nb_in, out_channels = nb_out, kernel_size = k, conv_weight = w, conv_bias = b\<rparr>"

definition MaxPool2d :: "nat \<Rightarrow> nat \<Rightarrow> maxpool2d" where
  "MaxPool2d k s = \<lparr>pool_size = k, stride = s\<rparr>"

definition Linear :: "nat \<Rightarrow> nat \<Rightarrow> real list list \<Rightarrow> real list \<Rightarrow> linear" where
  "Linear n_in n_out w b =
     \<lparr>in_features = n_in, out_features = n_out, lin_weight = w, lin_bias = b\<rparr>"

definition height :: "'a list list list \<Rightarrow> nat" where
  "height x = (case x of [] \<Rightarrow> 0 | ch # _ \<Rightarrow> length ch)"

definition width :: "'a list list list \<Rightarrow> nat" where
  "width x = (case x of [] \<Rightarrow> 0 | ch # _ \<Rightarrow> (case ch of [] \<Rightarrow> 0 | row # _ \<Rightarrow> length row))"

text \<open>
  \<^verbatim>\<open>nn.Conv2d\<close> with stride 1 and no padding: output channel \<open>oc\<close> at \<open>(i, j)\<close> is the
  bias plus the sum over the input channels and the kernel window of weight times input.
\<close>

definition conv2d_apply :: "conv2d \<Rightarrow> real list list list \<Rightarrow> error + real list list list" where
  "conv2d_apply L x =
     (let k = kernel_size L in
      if k = 0 \<or> length x \<noteq> in_channels L \<or> height x < k \<or> width x < k then Inl RuntimeError
      else Inr (map (\<lambda>oc. map (\<lambda>i. map (\<lambda>j.
                  conv_bias L ! oc
                  + (\<Sum>c\<leftarrow>[0..<in_channels L]. \<Sum>di\<leftarrow>[0..<k]. \<Sum>dj\<leftarrow>[0..<k].
                       conv_weight L ! oc ! c ! di ! dj * x ! c ! (i + di) ! (j + dj)))
                [0..<width x - k + 1]) [0..<height x - k + 1]) [0..<out_channels L]))"

text \<open>
  \<^verbatim>\<open>nn.MaxPool2d\<close> without padding: the maximum over each window, the number of
  windows per dimension rounded down.
\<close>

definition maxpool2d_apply :: "maxpool2d \<Rightarrow> real list list list \<Rightarrow> error + real list list list" where
  "maxpool2d_apply P x =
     (let k = pool_size P; s = stride P in
      if k = 0 \<or> s = 0 \<or> height x < k \<or> width x < k then Inl RuntimeError
      else Inr (map (\<lambda>c. map (\<lambda>i. map (\<lambda>j.
                  Max (set (concat (map (\<lambda>di. map (\<lambda>dj. x ! c ! (i * s + di) ! (j * s + dj))
                                              [0..<k]) [0..<k]))))
                [0..<(width x - k) div s + 1]) [0..<(height x - k) div s + 1]) [0..<length x]))"

definition linear_apply :: "linear \<Rightarrow> real list \<Rightarrow> error + real list" where
  "linear_apply L v =
     (if length v \<noteq> in_features L then Inl RuntimeError
      else Inr (map (\<lambda>oc. lin_bias L ! oc + (\<Sum>i\<leftarrow>[0..<in_features L]. lin_weight L ! oc ! i * v ! i))
                  [0..<out_features L]))"

definition relu :: "real \<Rightarrow> real" where
  "relu v = max 0 v"

fun map_err :: "('a \<Rightarrow> error + 'b) \<Rightarrow> 'a list \<Rightarrow> error + 'b list" where
  "map_err f [] = Inr []"
| "map_err f (x # xs) = bind_err (f x) (\<lambda>y. bind_err (map_err f xs) (\<lambda>ys. Inr (y # ys)))"

text \<open>The weights of the six layers, as the constructor of the class receives them.\<close>

record parameters =
  conv1_weight :: "real list list list list"
  conv1_bias :: "real list"
  conv2_weight :: "real list list list list"
  conv2_bias :: "real list"
  fc1_weight :: "real list list"
  fc1_bias :: "real list"
  fc2_weight :: "real list list"
  fc2_bias :: "real list"

record CNN =
  conv1 :: conv2d
  pool1 :: maxpool2d
  conv2 :: conv2d
  pool2 :: maxpool2d
  fc1 :: linear
  fc2 :: linear

definition CNN_init :: "parameters \<Rightarrow> CNN" where
  "CNN_init p =
     \<lparr>conv1 = Conv2d 1 10 5 (conv1_weight p) (conv1_bias p),
      pool1 = MaxPool2d 2 2,
      conv2 = Conv2d 10 20 5 (conv2_weight p) (conv2_bias p),
      pool2 = MaxPool2d 2 2,
      fc1 = Linear 320 50 (fc1_weight p) (fc1_bias p),
      fc2 = Linear 50 10 (fc2_weight p) (fc2_bias p)\<rparr>"

definition forward :: "CNN \<Rightarrow> real list list list list \<Rightarrow> error + real list list" where
  "forward self x =
     bind_err (map_err (conv2d_apply (conv1 self)) x) (\<lambda>x.
     bind_err (map_err (maxpool2d_apply (pool1 self)) (map (map (map (map relu))) x)) (\<lambda>x.
     bind_err (map_err (conv2d_apply (conv2 self)) x) (\<lambda>x.
     bind_err (map_err (maxpool2d_apply (pool2 self)) (map (map (map (map relu))) x)) (\<lambda>x.
     bind_err (map_err (linear_apply (fc1 self)) (map (\<lambda>s. concat (concat s)) x)) (\<lambda>x.
     bind_err (map_err (linear_apply (fc2 self)) (map (map relu) x)) (\<lambda>x.
     Inr (map (map relu) x)))))))"

text \<open>
  The topology as the specification words it, for comparison with \<open>forward\<close>: the same
  chain, the output being the result of the last fully-connected layer itself.
\<close>

definition forward_spec :: "CNN \<Rightarrow> real list list list list \<Rightarrow> error + real list list" where
  "forward_spec self x =
     bind_err (map_err (conv2d_apply (conv1 self)) x) (\<lambda>x.
     bind_err (map_err (maxpool2d_apply (pool1 self)) (map (map (map (map relu))) x)) (\<lambda>x.
     bind_err (map_err (conv2d_apply (conv2 self)) x) (\<lambda>x.
     bind_err (map_err (maxpool2d_apply (pool2 self)) (map (map (map (map relu))) x)) (\<lambda>x.
     bind_err (map_err (linear_apply (fc1 self)) (map (\<lambda>s. concat (concat s)) x)) (\<lambda>x.
     map_err (linear_apply (fc2 self)) (map (map relu) x))))))"

text \<open>The part of the chain that both share: everything up to the input of \<open>fc2\<close>.\<close>

definition features :: "CNN \<Rightarrow> real list list list list \<Rightarrow> error + real list list" where
  "features self x =
     bind_err (map_err (conv2d_apply (conv1 self)) x) (\<lambda>x.
     bind_err (map_err (maxpool2d_apply (pool1 self)) (map (map (map (map relu))) x)) (\<lambda>x.
     bind_err (map_err (conv2d_apply (conv2 self)) x) (\<lambda>x.
     bind_err (map_err (maxpool2d_apply (pool2 self)) (map (map (map (map relu))) x)) (\<lambda>x.
     bind_err (map_err (linear_apply (fc1 self)) (map (\<lambda>s. concat (concat s)) x)) (\<lambda>x.
     Inr (map (map relu) x))))))"

subsection \<open>The training loop\<close>

text \<open>
  A batch is the pair of the images and the labels of its samples.  The loss function
  (\<^verbatim>\<open>nn.CrossEntropyLoss\<close>) and the optimizer (\<^verbatim>\<open>optim.SGD\<close> with momentum, run after
  \<^verbatim>\<open>loss.backward()\<close>) are the library's and are arguments of the loop: the loss of the
  outputs against the labels, and the step from the optimizer's state and the network
  to the new ones.  What the loop prints is collected in \<open>printed\<close>: a line
  \<^verbatim>\<open>[epoch, batch] loss\<close> is its three values.
\<close>

type_synonym batch = "real list list list list \<times> 8 word list"

record 'o torch =
  criterion :: "real list list \<Rightarrow> 8 word list \<Rightarrow> error + real"
  optimizer_step :: "'o \<Rightarrow> CNN \<Rightarrow> batch \<Rightarrow> 'o \<times> CNN"

record model =
  cnn :: CNN

record 'o train_state = model +
  optimizer :: 'o
  running_loss :: real
  printed :: "(nat \<times> nat \<times> real) list"

fun fold_err :: "('a \<Rightarrow> 's \<Rightarrow> error + 's) \<Rightarrow> 'a list \<Rightarrow> 's \<Rightarrow> error + 's" where
  "fold_err f [] s = Inr s"
| "fold_err f (x # xs) s = bind_err (f x s) (fold_err f xs)"

text \<open>
  The body of the inner loop for batch number \<open>i\<close> of epoch \<open>epoch\<close>.  \<open>minibatches\<close>
  is a Python integer: \<^verbatim>\<open>i % minibatches\<close> raises \<^verbatim>\<open>ZeroDivisionError\<close> when it is
  zero, and has the sign of \<open>minibatches\<close> otherwise, as \<open>mod\<close> on \<open>int\<close> has.
\<close>

definition train_batch ::
  "'o torch \<Rightarrow> int \<Rightarrow> nat \<Rightarrow> nat \<times> batch \<Rightarrow> 'o train_state \<Rightarrow> error + 'o train_state" where
  "train_batch T minibatches epoch idata st =
     (case idata of (i, data) \<Rightarrow>
      bind_err (forward (cnn st) (fst data)) (\<lambda>outputs.
      bind_err (criterion T outputs (snd data)) (\<lambda>loss.
      (case optimizer_step T (optimizer st) (cnn st) data of (opt', cnn') \<Rightarrow>
       let st = st\<lparr>cnn := cnn', optimizer := opt', running_loss := running_loss st + loss\<rparr> in
       if minibatches = 0 then Inl ZeroDivisionError
       else if int i mod minibatches = minibatches - 1
       then Inr (st\<lparr>printed := printed st
                        @ [(epoch + 1, i + 1, running_loss st / real_of_int minibatches)],
                    running_loss := 0\<rparr>)
       else Inr st))))"

text \<open>
  One epoch: \<^verbatim>\<open>running_loss = 0.0\<close>, then the batches of this epoch's shuffle in order,
  numbered from 0.
\<close>

definition train_epoch ::
  "'o torch \<Rightarrow> int \<Rightarrow> (nat \<Rightarrow> batch list) \<Rightarrow> nat \<Rightarrow> 'o train_state \<Rightarrow> error + 'o train_state" where
  "train_epoch T minibatches train_loader epoch st =
     fold_err (train_batch T minibatches epoch) (enumerate 0 (train_loader epoch))
       (st\<lparr>running_loss := 0\<rparr>)"

definition train ::
  "'o torch \<Rightarrow> nat \<Rightarrow> int \<Rightarrow> (nat \<Rightarrow> batch list) \<Rightarrow> 'o train_state \<Rightarrow> error + 'o train_state" where
  "train T nb_epochs minibatches train_loader st =
     fold_err (train_epoch T minibatches train_loader) [0..<nb_epochs] st"

text \<open>The cell as written: three epochs, a report every 5000 batches.\<close>

definition train_model ::
  "'o torch \<Rightarrow> (nat \<Rightarrow> batch list) \<Rightarrow> 'o train_state \<Rightarrow> error + 'o train_state" where
  "train_model T train_loader st = train T 3 5000 train_loader st"

text \<open>
  The losses of the batches of one run of the inner loop, in order, as far as the run
  gets: the loss of a batch is computed with the network as the batches before it have
  left it.
\<close>

fun losses :: "'o torch \<Rightarrow> batch list \<Rightarrow> 'o \<Rightarrow> CNN \<Rightarrow> real list" where
  "losses T [] opt net = []"
| "losses T (data # rest) opt net =
     (case bind_err (forward net (fst data)) (\<lambda>outputs. criterion T outputs (snd data)) of
        Inl e \<Rightarrow> []
      | Inr loss \<Rightarrow>
          loss # (case optimizer_step T opt net data of (opt', net') \<Rightarrow> losses T rest opt' net'))"

text \<open>
  The bookkeeping of the running loss alone, on the loss of batch number \<open>i\<close>: the
  accumulator and the lines printed so far, before and after.
\<close>

definition book ::
  "int \<Rightarrow> nat \<Rightarrow> real \<times> (nat \<times> nat \<times> real) list \<Rightarrow> nat \<times> real
     \<Rightarrow> real \<times> (nat \<times> nat \<times> real) list" where
  "book minibatches epoch acc iloss =
     (case acc of (r, out) \<Rightarrow> case iloss of (i, loss) \<Rightarrow>
        if int i mod minibatches = minibatches - 1
        then (0, out @ [(epoch + 1, i + 1, (r + loss) / real_of_int minibatches)])
        else (r + loss, out))"

subsection \<open>The evaluation loop\<close>

text \<open>
  \<^verbatim>\<open>torch.max(outputs.data, 1)\<close>: per sample the index of the largest score, the
  lowest such index on a tie; the library raises on a sample without scores.
\<close>

definition argmax :: "real list \<Rightarrow> nat" where
  "argmax xs = fold (\<lambda>i best. if xs ! best < xs ! i then i else best) [0..<length xs] 0"

definition torch_max :: "real list list \<Rightarrow> error + nat list" where
  "torch_max outputs =
     map_err (\<lambda>row. if row = [] then Inl RuntimeError else Inr (argmax row)) outputs"

record eval_state = model +
  correct :: nat
  total :: nat
  correct_class :: "real list"
  total_class :: "real list"

text \<open>
  The body of \<^verbatim>\<open>for i in range(4)\<close>: \<^verbatim>\<open>labels[i]\<close> raises \<^verbatim>\<open>IndexError\<close> beyond the
  batch, and so do the two lists of ten counters beyond their length.
\<close>

definition count_sample :: "8 word list \<Rightarrow> bool list \<Rightarrow> nat \<Rightarrow> eval_state \<Rightarrow> error + eval_state" where
  "count_sample labels c i st =
     (if length labels \<le> i then Inl IndexError
      else let label = unat (labels ! i) in
        if length (correct_class st) \<le> label \<or> length c \<le> i then Inl IndexError
        else let st = st\<lparr>correct_class :=
                           (correct_class st)[label := correct_class st ! label + (if c ! i then 1 else 0)]\<rparr>
          in if length (total_class st) \<le> label then Inl IndexError
             else Inr (st\<lparr>total_class := (total_class st)[label := total_class st ! label + 1]\<rparr>))"

definition eval_batch :: "batch \<Rightarrow> eval_state \<Rightarrow> error + eval_state" where
  "eval_batch data st =
     (case data of (images, labels) \<Rightarrow>
      bind_err (forward (cnn st) images) (\<lambda>outputs.
      bind_err (torch_max outputs) (\<lambda>predicted.
      let st = st\<lparr>total := total st + length labels\<rparr> in
      if length predicted \<noteq> length labels then Inl RuntimeError
      else let c = map (\<lambda>(p, l). p = unat l) (zip predicted labels);
               st = st\<lparr>correct := correct st + length (filter (\<lambda>b. b) c)\<rparr>
           in fold_err (count_sample labels c) [0..<4] st)))"

definition evaluate :: "batch list \<Rightarrow> CNN \<Rightarrow> error + eval_state" where
  "evaluate test_loader net =
     fold_err eval_batch test_loader
       \<lparr>cnn = net, correct = 0, total = 0,
        correct_class = replicate 10 0, total_class = replicate 10 0\<rparr>"

text \<open>
  An exception leaves the variables of the notebook as the statements before it have
  set them.  The same loop once more, keeping them: the state reached, and the exception
  if one was raised there.  \<open>outcome_result\<close> forgets the state of a run that raised.
\<close>

definition outcome_result :: "'s \<times> error option \<Rightarrow> error + 's" where
  "outcome_result r = (case r of (s, None) \<Rightarrow> Inr s | (s, Some e) \<Rightarrow> Inl e)"

fun fold_exc :: "('a \<Rightarrow> 's \<Rightarrow> 's \<times> error option) \<Rightarrow> 'a list \<Rightarrow> 's \<Rightarrow> 's \<times> error option" where
  "fold_exc f [] s = (s, None)"
| "fold_exc f (x # xs) s =
     (case f x s of (s', None) \<Rightarrow> fold_exc f xs s' | (s', Some e) \<Rightarrow> (s', Some e))"

definition count_sample_at ::
  "8 word list \<Rightarrow> bool list \<Rightarrow> nat \<Rightarrow> eval_state \<Rightarrow> eval_state \<times> error option" where
  "count_sample_at labels c i st =
     (if length labels \<le> i then (st, Some IndexError)
      else let label = unat (labels ! i) in
        if length (correct_class st) \<le> label \<or> length c \<le> i then (st, Some IndexError)
        else let st = st\<lparr>correct_class :=
                           (correct_class st)[label := correct_class st ! label + (if c ! i then 1 else 0)]\<rparr>
          in if length (total_class st) \<le> label then (st, Some IndexError)
             else (st\<lparr>total_class := (total_class st)[label := total_class st ! label + 1]\<rparr>,
                   None))"

definition eval_batch_at :: "batch \<Rightarrow> eval_state \<Rightarrow> eval_state \<times> error option" where
  "eval_batch_at data st =
     (case data of (images, labels) \<Rightarrow>
      case forward (cnn st) images of Inl e \<Rightarrow> (st, Some e) | Inr outputs \<Rightarrow>
      case torch_max outputs of Inl e \<Rightarrow> (st, Some e) | Inr predicted \<Rightarrow>
      let st = st\<lparr>total := total st + length labels\<rparr> in
      if length predicted \<noteq> length labels then (st, Some RuntimeError)
      else let c = map (\<lambda>(p, l). p = unat l) (zip predicted labels);
               st = st\<lparr>correct := correct st + length (filter (\<lambda>b. b) c)\<rparr>
           in fold_exc (count_sample_at labels c) [0..<4] st)"

definition evaluate_at :: "batch list \<Rightarrow> CNN \<Rightarrow> eval_state \<times> error option" where
  "evaluate_at test_loader net =
     fold_exc eval_batch_at test_loader
       \<lparr>cnn = net, correct = 0, total = 0,
        correct_class = replicate 10 0, total_class = replicate 10 0\<rparr>"

text \<open>
  The two reports.  \<^verbatim>\<open>100*correct/total\<close> is Python 3 division and raises
  \<^verbatim>\<open>ZeroDivisionError\<close> on a zero divisor, for the integers of the overall counters and
  for the floats of the counters by class; \<^verbatim>\<open>%d\<close> prints the integer part.
\<close>

definition overall_accuracy :: "eval_state \<Rightarrow> error + nat \<times> int" where
  "overall_accuracy st =
     (if total st = 0 then Inl ZeroDivisionError
      else Inr (total st, \<lfloor>100 * real (correct st) / real (total st)\<rfloor>))"

definition class_accuracy :: "eval_state \<Rightarrow> nat \<Rightarrow> error + int" where
  "class_accuracy st i =
     (if length (correct_class st) \<le> i \<or> length (total_class st) \<le> i then Inl IndexError
      else if total_class st ! i = 0 then Inl ZeroDivisionError
      else Inr \<lfloor>100 * correct_class st ! i / total_class st ! i\<rfloor>)"

definition report :: "eval_state \<Rightarrow> error + (nat \<times> int) \<times> int list" where
  "report st =
     bind_err (overall_accuracy st) (\<lambda>overall.
     bind_err (map_err (class_accuracy st) [0..<10]) (\<lambda>by_class.
     Inr (overall, by_class)))"

definition evaluate_and_report :: "batch list \<Rightarrow> CNN \<Rightarrow> error + (nat \<times> int) \<times> int list" where
  "evaluate_and_report test_loader net = bind_err (evaluate test_loader net) report"

text \<open>A sample of \<open>c\<close> channels of \<open>h\<close> rows of \<open>w\<close> elements.\<close>

definition shape3 :: "nat \<Rightarrow> nat \<Rightarrow> nat \<Rightarrow> 'a list list list \<Rightarrow> bool" where
  "shape3 c h w x \<longleftrightarrow>
     length x = c \<and> (\<forall>ch \<in> set x. length ch = h \<and> (\<forall>row \<in> set ch. length row = w))"

text \<open>
  A network for the examples: all weights zero, the biases of the last layer \<open>-1\<close>,
  so that the last fully-connected layer returns \<open>-1\<close> for every class.
\<close>

definition example_parameters :: parameters where
  "example_parameters =
     \<lparr>conv1_weight = replicate 10 (replicate 1 (replicate 5 (replicate 5 0))),
      conv1_bias = replicate 10 0,
      conv2_weight = replicate 20 (replicate 10 (replicate 5 (replicate 5 0))),
      conv2_bias = replicate 20 0,
      fc1_weight = replicate 50 (replicate 320 0),
      fc1_bias = replicate 50 0,
      fc2_weight = replicate 10 (replicate 50 0),
      fc2_bias = replicate 10 (- 1)\<rparr>"

definition example_image :: "real list list list" where
  "example_image = [replicate 28 (replicate 28 0)]"

text \<open>
  For the examples: a loss function that returns 1 and an optimizer that changes
  nothing, a loader of three batches of one sample in every epoch, and two batches for
  the evaluation, the second one of two samples.
\<close>

definition example_torch :: "unit torch" where
  "example_torch = \<lparr>criterion = (\<lambda>outputs labels. Inr 1),
                     optimizer_step = (\<lambda>opt net data. (opt, net))\<rparr>"

definition example_loader :: "nat \<Rightarrow> batch list" where
  "example_loader epoch = replicate 3 ([example_image], [0])"

definition example_test_loader :: "batch list" where
  "example_test_loader =
     [(replicate 4 example_image, [0, 0, 0, 0]), (replicate 2 example_image, [0, 0])]"

section \<open>Properties\<close>

subsection \<open>Dataset reader\<close>

lemma length_rows_of: "length (rows_of n c xs) = n"
  by (simp add: rows_of_def)

lemma rows_of_row_length:
  assumes "length xs = n * c" and "r \<in> set (rows_of n c xs)"
  shows "length r = c"
proof -
  from assms(2) obtain i where i: "i < n" and r: "r = take c (drop (i * c) xs)"
    by (auto simp: rows_of_def)
  from i have "Suc i \<le> n" by simp
  then have "Suc i * c \<le> n * c" by (rule mult_le_mono1)
  then have "c \<le> n * c - i * c" by simp
  with assms(1) r show ?thesis by simp
qed

lemma load_fmnist_ok:
  assumes "8 \<le> length lb" and "length img = 16 + 784 * (length lb - 8)"
  shows "load_fmnist (Some lb) (Some img)
           = Inr (rows_of (length lb - 8) 784 (drop 16 img), drop 8 lb)"
  using assms by (simp add: load_fmnist_def bind_err_def gzip_read_def frombuffer_def reshape2_def)

lemma load_fmnist_short_labels:
  "length lb < 8 \<Longrightarrow> load_fmnist (Some lb) (Some img) = Inl ValueError"
  by (simp add: load_fmnist_def bind_err_def gzip_read_def frombuffer_def)

lemma load_fmnist_short_images:
  "8 \<le> length lb \<Longrightarrow> length img < 16 \<Longrightarrow> load_fmnist (Some lb) (Some img) = Inl ValueError"
  by (simp add: load_fmnist_def bind_err_def gzip_read_def frombuffer_def)

lemma load_fmnist_mismatch:
  assumes "8 \<le> length lb" and "16 \<le> length img"
    and "length img - 16 \<noteq> (length lb - 8) * 784"
  shows "load_fmnist (Some lb) (Some img) = Inl ValueError"
  using assms by (simp add: load_fmnist_def bind_err_def gzip_read_def frombuffer_def reshape2_def)

text \<open>
  Claim C4.  For a valid pair of files (a label file of 8 header bytes and \<open>N\<close> label
  bytes, each at most 9, and an image file of exactly \<open>16 + 784 * N\<close> bytes) the reader
  returns as many images as labels, every image of 784 bytes, and every label in 0..9;
  the labels are the label file's bytes after the header.  For every image file whose
  length is not \<open>16 + 784 * N\<close>, for the \<open>N\<close> given by the label file's length, the
  reader raises: the exception of the source is numpy's \<^verbatim>\<open>ValueError\<close>, which is what
  the specification calls \<^verbatim>\<open>DatasetFormatError\<close>.
\<close>

theorem load_fmnist_valid_or_raises:
  "(8 \<le> length lb \<and> length img = 16 + 784 * (length lb - 8)
      \<and> (\<forall>b \<in> set (drop 8 lb). unat b \<le> 9)
    \<longrightarrow> (\<exists>images labels. load_fmnist (Some lb) (Some img) = Inr (images, labels)
          \<and> length labels = length images \<and> labels = drop 8 lb
          \<and> (\<forall>im \<in> set images. length im = 784)
          \<and> (\<forall>l \<in> set labels. unat l \<le> 9)))
   \<and> (length img \<noteq> 16 + 784 * (length lb - 8)
    \<longrightarrow> load_fmnist (Some lb) (Some img) = Inl ValueError)"
proof (intro conjI impI)
  assume v: "8 \<le> length lb \<and> length img = 16 + 784 * (length lb - 8)
      \<and> (\<forall>b \<in> set (drop 8 lb). unat b \<le> 9)"
  let ?n = "length lb - 8"
  let ?images = "rows_of ?n 784 (drop 16 img)"
  from v have v1: "8 \<le> length lb" and v2: "length img = 16 + 784 * ?n"
    and v3: "\<forall>b \<in> set (drop 8 lb). unat b \<le> 9" by blast+
  from v2 have len: "length (drop 16 img) = ?n * 784" by simp
  have run: "load_fmnist (Some lb) (Some img) = Inr (?images, drop 8 lb)"
    using v1 v2 by (rule load_fmnist_ok)
  have rows: "\<forall>im \<in> set ?images. length im = 784"
  proof
    fix im assume "im \<in> set ?images"
    with len show "length im = 784" by (rule rows_of_row_length)
  qed
  have cnt: "length (drop 8 lb) = length ?images"
    by (simp only: length_rows_of length_drop)
  from run cnt rows v3
  show "\<exists>images labels. load_fmnist (Some lb) (Some img) = Inr (images, labels)
          \<and> length labels = length images \<and> labels = drop 8 lb
          \<and> (\<forall>im \<in> set images. length im = 784)
          \<and> (\<forall>l \<in> set labels. unat l \<le> 9)"
    by blast
next
  assume m: "length img \<noteq> 16 + 784 * (length lb - 8)"
  show "load_fmnist (Some lb) (Some img) = Inl ValueError"
  proof (cases "length lb < 8")
    case True
    then show ?thesis by (rule load_fmnist_short_labels)
  next
    case False
    then have lb: "8 \<le> length lb" by simp
    show ?thesis
    proof (cases "length img < 16")
      case True
      with lb show ?thesis by (rule load_fmnist_short_images)
    next
      case False
      then have img: "16 \<le> length img" by simp
      with m have "length img - 16 \<noteq> (length lb - 8) * 784" by arith
      with lb img show ?thesis by (rule load_fmnist_mismatch)
    qed
  qed
qed

theorem load_fmnist_valid_or_raises_witness:
  "(\<exists>images labels.
      load_fmnist (Some (replicate 8 0 @ [3, 9])) (Some (replicate 1584 0))
        = Inr (images, labels)
      \<and> length labels = length images \<and> labels = [3, 9]
      \<and> list_all (\<lambda>im. length im = 784) images
      \<and> list_all (\<lambda>l. unat l \<le> 9) labels)
   \<and> load_fmnist (Some (replicate 8 0 @ [3, 9])) (Some (replicate 800 0))
        = Inl ValueError"
proof -
  have a: "8 \<le> length (replicate 8 (0::8 word) @ [3, 9])
      \<and> length (replicate 1584 (0::8 word))
          = 16 + 784 * (length (replicate 8 (0::8 word) @ [3, 9]) - 8)
      \<and> (\<forall>b \<in> set (drop 8 (replicate 8 (0::8 word) @ [3, 9])). unat b \<le> 9)"
    by simp
  have b: "length (replicate 800 (0::8 word))
      \<noteq> 16 + 784 * (length (replicate 8 (0::8 word) @ [3, 9]) - 8)"
    by simp
  have d: "drop 8 (replicate 8 (0::8 word) @ [3, 9]) = [3, 9]" by simp
  from load_fmnist_valid_or_raises
         [of "replicate 8 0 @ [3, 9]" "replicate 1584 0", THEN conjunct1, THEN mp, OF a]
  obtain images labels where
    run: "load_fmnist (Some (replicate 8 0 @ [3, 9])) (Some (replicate 1584 0))
            = Inr (images, labels)"
    and n: "length labels = length images"
    and l: "labels = drop 8 (replicate 8 (0::8 word) @ [3, 9])"
    and i: "\<forall>im \<in> set images. length im = 784"
    and r: "\<forall>l \<in> set labels. unat l \<le> 9"
    by blast
  from i have i': "list_all (\<lambda>im. length im = 784) images" by (simp only: list_all_iff)
  from r have r': "list_all (\<lambda>l. unat l \<le> 9) labels" by (simp only: list_all_iff)
  from l d have l': "labels = [3, 9]" by (rule trans)
  from run n l' i' r'
  have "\<exists>images labels.
      load_fmnist (Some (replicate 8 0 @ [3, 9])) (Some (replicate 1584 0))
        = Inr (images, labels)
      \<and> length labels = length images \<and> labels = [3, 9]
      \<and> list_all (\<lambda>im. length im = 784) images
      \<and> list_all (\<lambda>l. unat l \<le> 9) labels"
    by blast
  with load_fmnist_valid_or_raises
         [of "replicate 8 0 @ [3, 9]" "replicate 800 0", THEN conjunct2, THEN mp, OF b]
  show ?thesis by (intro conjI)
qed

subsection \<open>Preprocessor\<close>

lemma np_var_nonneg: "0 \<le> np_var xs"
  unfolding np_var_def np_mean_def
  by (intro divide_nonneg_nonneg sum_list_nonneg) auto

lemma eps_denominator_pos: "0 < sqrt (np_var xs + 1 / 100000)"
proof -
  have "0 < np_var xs + 1 / 100000" using np_var_nonneg [of xs] by simp
  then show ?thesis by simp
qed

lemma sum_list_const: "\<forall>v \<in> set xs. v = c \<Longrightarrow> sum_list xs = real (length xs) * c"
  by (induction xs) (auto simp: algebra_simps)

lemma np_mean_const:
  assumes "\<forall>v \<in> set xs. v = c" and "xs \<noteq> []"
  shows "np_mean xs = c"
  using assms by (simp add: np_mean_def sum_list_const)

lemma standardize_shape:
  "length (standardize a) = length a
   \<and> (\<forall>i < length a. length (standardize a ! i) = length (a ! i))"
  by (simp add: standardize_def)

text \<open>
  Claim C6.  \<^verbatim>\<open>standardize\<close> returns an array of the same shape (as many rows, each row
  as long), and every element \<open>v\<close> becomes \<open>(v - mean) / sqrt (var + 1e-5)\<close>, where
  the mean and the variance are the two scalars of the whole array: the sum of all
  elements over their number, and the mean squared deviation from it.
\<close>

theorem standardize_elementwise:
  "length (standardize a) = length a
   \<and> (\<forall>i < length a. length (standardize a ! i) = length (a ! i)
        \<and> (\<forall>j < length (a ! i). standardize a ! i ! j =
             (a ! i ! j - sum_list (concat a) / real (length (concat a)))
               / sqrt ((\<Sum>x\<leftarrow>concat a. (x - sum_list (concat a) / real (length (concat a)))\<^sup>2)
                         / real (length (concat a)) + 1 / 100000)))"
  by (simp add: standardize_def np_mean_def np_var_def)

theorem standardize_elementwise_witness:
  "length (standardize [[1, 3], [5, 7]]) = 2
   \<and> standardize [[1, 3], [5, 7]] ! 1 ! 0 = (5 - 4) / sqrt (5 + 1 / 100000)"
proof -
  have i: "1 < length [[1, 3], [5, 7::real]]" by simp
  have j: "0 < length ([[1, 3], [5, 7::real]] ! 1)" by simp
  from standardize_elementwise [of "[[1, 3], [5, 7]]", THEN conjunct1]
       standardize_elementwise [of "[[1, 3], [5, 7]]", THEN conjunct2, rule_format, OF i,
         THEN conjunct2, rule_format, OF j]
  show ?thesis by (simp add: power2_eq_square)
qed

text \<open>
  In exact arithmetic, which is what \<open>standardize\<close> above computes with, the mean of a
  constant array is the constant itself: every element becomes 0, and the denominator
  \<open>sqrt (var + 1e-5)\<close> is positive.  What remains of this under rounding is the subject
  of the double-precision model (\<open>standardize_f64\<close>) below.
\<close>

lemma standardize_exact_constant:
  "(\<forall>row \<in> set a. \<forall>v \<in> set row. v = c)
   \<longrightarrow> 0 < sqrt (np_var (concat a) + 1 / 100000)
       \<and> standardize a = map (map (\<lambda>v. 0)) a"
proof
  assume const: "\<forall>row \<in> set a. \<forall>v \<in> set row. v = c"
  then have all: "\<forall>v \<in> set (concat a). v = c" by auto
  have "standardize a = map (map (\<lambda>v. 0)) a"
    unfolding standardize_def
  proof (intro map_cong refl)
    fix row v assume "row \<in> set a" and "v \<in> set row"
    then have "v \<in> set (concat a)" by auto
    then have ne: "concat a \<noteq> []" by (cases "concat a") simp_all
    from \<open>v \<in> set (concat a)\<close> all have v: "v = c" by blast
    from all ne have "np_mean (concat a) = c" by (rule np_mean_const)
    with v show "(v - np_mean (concat a)) / sqrt (np_var (concat a) + 1 / 100000) = 0"
      by simp
  qed
  with eps_denominator_pos [of "concat a"]
  show "0 < sqrt (np_var (concat a) + 1 / 100000) \<and> standardize a = map (map (\<lambda>v. 0)) a"
    by (rule conjI)
qed

lemma length_concat_const:
  "\<forall>r \<in> set xss. length r = c \<Longrightarrow> length (concat xss) = length xss * c"
  by (induction xss) auto

lemma drop_concat_const:
  "\<forall>r \<in> set xss. length r = c \<Longrightarrow> drop (i * c) (concat xss) = concat (drop i xss)"
proof (induction xss arbitrary: i)
  case Nil
  then show ?case by simp
next
  case (Cons x xss)
  then show ?case by (cases i) auto
qed

lemma rows_of_concat:
  assumes "\<forall>r \<in> set xss. length r = c"
  shows "rows_of (length xss) c (concat xss) = xss"
proof (rule nth_equalityI)
  show "length (rows_of (length xss) c (concat xss)) = length xss"
    by (rule length_rows_of)
next
  fix i assume "i < length (rows_of (length xss) c (concat xss))"
  then have i: "i < length xss" by (simp add: length_rows_of)
  then have "drop i xss = xss ! i # drop (Suc i) xss" by (simp add: Cons_nth_drop_Suc)
  moreover from i assms have "length (xss ! i) = c" by simp
  ultimately have "take c (concat (drop i xss)) = xss ! i" by simp
  with i assms show "rows_of (length xss) c (concat xss) ! i = xss ! i"
    by (simp add: rows_of_def drop_concat_const)
qed

lemma concat_rows_of: "concat (rows_of n c xs) = take (n * c) xs"
proof (induction n)
  case 0
  then show ?case by (simp add: rows_of_def)
next
  case (Suc n)
  have "rows_of (Suc n) c xs = rows_of n c xs @ [take c (drop (n * c) xs)]"
    by (simp add: rows_of_def)
  with Suc have "concat (rows_of (Suc n) c xs) = take (n * c) xs @ take c (drop (n * c) xs)"
    by simp
  also have "\<dots> = take (n * c + c) xs" by (simp only: take_add)
  also have "n * c + c = Suc n * c" by simp
  finally show ?case .
qed

lemma nth_rows_of:
  assumes "i < n" and "j < c" and "length xs = n * c"
  shows "rows_of n c xs ! i ! j = xs ! (i * c + j)"
proof -
  from assms(1) have "Suc i \<le> n" by simp
  then have "Suc i * c \<le> n * c" by (rule mult_le_mono1)
  with assms(2,3) have "i * c + j < length xs" by simp
  with assms show ?thesis by (simp add: rows_of_def)
qed

lemma nth_concat_const:
  assumes "\<forall>r \<in> set xss. length r = c" and "i < length xss" and "j < c"
  shows "concat xss ! (i * c + j) = xss ! i ! j"
proof -
  have "xss ! i ! j = rows_of (length xss) c (concat xss) ! i ! j"
    using assms(1) by (simp add: rows_of_concat)
  also have "\<dots> = concat xss ! (i * c + j)"
    using assms by (intro nth_rows_of) (simp_all add: length_concat_const)
  finally show ?thesis by simp
qed

lemma reshape_images_eq:
  assumes "\<forall>row \<in> set X. length row = 784"
  shows "reshape_images X = Inr (map (\<lambda>row. [rows_of 28 28 row]) X)"
proof -
  have len: "length (concat X) = length X * 784"
    using assms by (rule length_concat_const)
  have one: "\<And>row. length row = 784 \<Longrightarrow> rows_of (Suc 0) 784 row = [row]"
    by (simp add: rows_of_def)
  have "map (\<lambda>img. map (rows_of 28 28) (rows_of 1 784 img)) X = map (\<lambda>row. [rows_of 28 28 row]) X"
    using assms by (intro map_cong refl) (simp add: one)
  with len assms show ?thesis
    by (simp add: reshape_images_def reshape4_def rows_of_concat)
qed

lemma ravel4_by_image: "ravel4 t = concat (map (\<lambda>img. concat (concat img)) t)"
  by (induction t) (simp_all add: ravel4_def)

lemma flatten_reshaped_rows:
  assumes "\<forall>row \<in> set X. length row = 784"
  shows "map (\<lambda>img. concat (concat img)) (map (\<lambda>row. [rows_of 28 28 row]) X) = X"
proof -
  have "\<And>row. row \<in> set X \<Longrightarrow> concat (rows_of 28 28 row) = row"
    using assms by (simp add: concat_rows_of)
  then have "map (\<lambda>row. concat (rows_of 28 28 row)) X = map (\<lambda>row. row) X"
    by (intro map_cong refl)
  then show ?thesis by (simp add: comp_def)
qed

lemma image_shape_flat:
  assumes "length img = 1 \<and> (\<forall>ch \<in> set img. length ch = 28 \<and> (\<forall>row \<in> set ch. length row = 28))"
  shows "length (concat (concat img)) = 784 \<and> [rows_of 28 28 (concat (concat img))] = img"
proof -
  from assms obtain ch where img: "img = [ch]" by (cases img) auto
  with assms have ch: "length ch = 28" and rows: "\<forall>row \<in> set ch. length row = 28" by auto
  from rows have "length (concat ch) = length ch * 28" by (rule length_concat_const)
  moreover from rows have "rows_of (length ch) 28 (concat ch) = ch" by (rule rows_of_concat)
  ultimately show ?thesis using img ch by simp
qed

text \<open>
  Claim C7.  The reshape to \<open>(-1, 1, 28, 28)\<close> of an array of \<open>N\<close> rows of 784
  elements succeeds with \<open>N\<close> images of one channel of 28 rows of 28 elements, pixel
  \<open>(r, c)\<close> of image \<open>n\<close> being element \<open>r * 28 + c\<close> of row \<open>n\<close>; flattening
  the result gives back the original element sequence, and the original rows.  In the
  other direction every array of shape \<open>(N, 1, 28, 28)\<close> is the reshape of its
  flattened rows: the reshape is a bijection between the two layouts.
\<close>

theorem reshape_images_bijection:
  "((\<forall>row \<in> set X. length row = 784) \<longrightarrow>
      (\<exists>t. reshape_images X = Inr t \<and> length t = length X
         \<and> (\<forall>n < length X. length (t ! n) = 1 \<and> length (t ! n ! 0) = 28
              \<and> (\<forall>r < 28. length (t ! n ! 0 ! r) = 28
                    \<and> (\<forall>c < 28. t ! n ! 0 ! r ! c = X ! n ! (r * 28 + c))))
         \<and> ravel4 t = concat X
         \<and> map (\<lambda>img. concat (concat img)) t = X))
   \<and> ((\<forall>img \<in> set t'. length img = 1
          \<and> (\<forall>ch \<in> set img. length ch = 28 \<and> (\<forall>row \<in> set ch. length row = 28)))
        \<longrightarrow> reshape_images (map (\<lambda>img. concat (concat img)) t') = Inr t')"
proof (intro conjI impI)
  assume X: "\<forall>row \<in> set X. length row = 784"
  let ?t = "map (\<lambda>row. [rows_of 28 28 row]) X"
  have run: "reshape_images X = Inr ?t" using X by (rule reshape_images_eq)
  have linv: "map (\<lambda>img. concat (concat img)) ?t = X" using X by (rule flatten_reshaped_rows)
  have ravel: "ravel4 ?t = concat X" by (simp only: ravel4_by_image linv)
  have idx: "\<forall>n < length X. length (?t ! n) = 1 \<and> length (?t ! n ! 0) = 28
              \<and> (\<forall>r < 28. length (?t ! n ! 0 ! r) = 28
                    \<and> (\<forall>c < 28. ?t ! n ! 0 ! r ! c = X ! n ! (r * 28 + c)))"
  proof (intro allI impI)
    fix n assume n: "n < length X"
    with X have len: "length (X ! n) = 28 * 28" by simp
    have r: "\<forall>r < 28. length (rows_of 28 28 (X ! n) ! r) = 28
               \<and> (\<forall>c < 28. rows_of 28 28 (X ! n) ! r ! c = X ! n ! (r * 28 + c))"
    proof (intro allI impI conjI)
      fix r :: nat assume r: "r < 28"
      then have "rows_of 28 28 (X ! n) ! r \<in> set (rows_of 28 28 (X ! n))"
        by (simp add: length_rows_of)
      with len show "length (rows_of 28 28 (X ! n) ! r) = 28" by (rule rows_of_row_length)
      fix c :: nat assume "c < 28"
      with r show "rows_of 28 28 (X ! n) ! r ! c = X ! n ! (r * 28 + c)"
        using len by (rule nth_rows_of)
    qed
    with n show "length (?t ! n) = 1 \<and> length (?t ! n ! 0) = 28
              \<and> (\<forall>r < 28. length (?t ! n ! 0 ! r) = 28
                    \<and> (\<forall>c < 28. ?t ! n ! 0 ! r ! c = X ! n ! (r * 28 + c)))"
      by (simp add: length_rows_of)
  qed
  have "length ?t = length X" by simp
  with run idx ravel linv
  show "\<exists>t. reshape_images X = Inr t \<and> length t = length X
         \<and> (\<forall>n < length X. length (t ! n) = 1 \<and> length (t ! n ! 0) = 28
              \<and> (\<forall>r < 28. length (t ! n ! 0 ! r) = 28
                    \<and> (\<forall>c < 28. t ! n ! 0 ! r ! c = X ! n ! (r * 28 + c))))
         \<and> ravel4 t = concat X
         \<and> map (\<lambda>img. concat (concat img)) t = X"
    by blast
next
  assume t: "\<forall>img \<in> set t'. length img = 1
          \<and> (\<forall>ch \<in> set img. length ch = 28 \<and> (\<forall>row \<in> set ch. length row = 28))"
  let ?X = "map (\<lambda>img. concat (concat img)) t'"
  have sh: "length (concat (concat img)) = 784 \<and> [rows_of 28 28 (concat (concat img))] = img"
    if "img \<in> set t'" for img
  proof -
    from t that have "length img = 1
        \<and> (\<forall>ch \<in> set img. length ch = 28 \<and> (\<forall>row \<in> set ch. length row = 28))"
      by blast
    then show ?thesis by (rule image_shape_flat)
  qed
  have "\<forall>row \<in> set ?X. length row = 784" using sh by auto
  then have "reshape_images ?X = Inr (map (\<lambda>row. [rows_of 28 28 row]) ?X)"
    by (rule reshape_images_eq)
  moreover have "map (\<lambda>row. [rows_of 28 28 row]) ?X = map (\<lambda>img. img) t'"
    unfolding map_map comp_def using sh by (intro map_cong refl) blast
  ultimately show "reshape_images ?X = Inr t'" by simp
qed


theorem reshape_images_bijection_witness:
  "(\<exists>t. reshape_images [[0..<784]] = Inr t \<and> length t = 1 \<and> length (t ! 0) = 1
       \<and> length (t ! 0 ! 0) = 28 \<and> length (t ! 0 ! 0 ! 2) = 28 \<and> t ! 0 ! 0 ! 2 ! 3 = 59
       \<and> ravel4 t = [0..<784])
   \<and> reshape_images (map (\<lambda>img. concat (concat img)) [[replicate 28 (replicate 28 (7::nat))]])
       = Inr [[replicate 28 (replicate 28 7)]]"
proof -
  have h1: "\<forall>row \<in> set [[0..<784]]. length row = 784" by simp
  have h2: "\<forall>img \<in> set [[replicate 28 (replicate 28 (7::nat))]]. length img = 1
          \<and> (\<forall>ch \<in> set img. length ch = 28 \<and> (\<forall>row \<in> set ch. length row = 28))"
    by simp
  from reshape_images_bijection [of "[[0..<784]]" "[]", THEN conjunct1, THEN mp, OF h1]
  obtain t where run: "reshape_images [[0..<784]] = Inr t" and n: "length t = length [[0..<784]]"
    and idx: "\<forall>n < length [[0..<784]]. length (t ! n) = 1 \<and> length (t ! n ! 0) = 28
              \<and> (\<forall>r < 28. length (t ! n ! 0 ! r) = 28
                    \<and> (\<forall>c < 28. t ! n ! 0 ! r ! c = [[0..<784]] ! n ! (r * 28 + c)))"
    and rav: "ravel4 t = concat [[0..<784]]"
    by blast
  from idx have i0: "length (t ! 0) = 1 \<and> length (t ! 0 ! 0) = 28
              \<and> (\<forall>r < 28. length (t ! 0 ! 0 ! r) = 28
                    \<and> (\<forall>c < 28. t ! 0 ! 0 ! r ! c = [[0..<784]] ! 0 ! (r * 28 + c)))"
    by simp
  then have r2: "length (t ! 0 ! 0 ! 2) = 28
       \<and> (\<forall>c < 28. t ! 0 ! 0 ! 2 ! c = [[0..<784]] ! 0 ! (2 * 28 + c))"
    by simp
  then have "t ! 0 ! 0 ! 2 ! 3 = [[0..<784]] ! 0 ! (2 * 28 + 3)" by simp
  then have c3: "t ! 0 ! 0 ! 2 ! 3 = 59" by simp
  from run n i0 r2 c3 rav
  have "\<exists>t. reshape_images [[0..<784]] = Inr t \<and> length t = 1 \<and> length (t ! 0) = 1
       \<and> length (t ! 0 ! 0) = 28 \<and> length (t ! 0 ! 0 ! 2) = 28 \<and> t ! 0 ! 0 ! 2 ! 3 = 59
       \<and> ravel4 t = [0..<784]"
    by auto
  with reshape_images_bijection [of "[]" "[[replicate 28 (replicate 28 (7::nat))]]",
         THEN conjunct2, THEN mp, OF h2]
  show ?thesis by blast
qed

subsection \<open>Preprocessor in double precision\<close>

text \<open>Rounding to the nearest integer, and the binary exponent.\<close>

lemma round_even_of_int: "round_even (of_int k) = k"
  by (simp add: round_even_def)

lemma round_even_bounds: "\<lfloor>x\<rfloor> \<le> round_even x \<and> round_even x \<le> \<lfloor>x\<rfloor> + 1"
  by (simp add: round_even_def Let_def)

lemma two_powr_powi: "2 powr real_of_int k = (2::real) powi k"
  by (simp add: powr_real_of_int')

lemma floor_log2_eq:
  assumes "2 powi e \<le> \<bar>x\<bar>" and "\<bar>x\<bar> < 2 powi (e + 1)"
  shows "\<lfloor>log 2 \<bar>x\<bar>\<rfloor> = e"
proof -
  have "(0::real) < 2 powi e" by simp
  with assms(1) have pos: "0 < \<bar>x\<bar>" by linarith
  have two: "(1::real) < 2" by simp
  from assms show ?thesis
    by (simp only: floor_log_eq_powr_iff [OF pos two, of e, unfolded two_powr_powi])
qed

lemma floor_log2_bounds:
  assumes "x \<noteq> 0"
  shows "2 powi \<lfloor>log 2 \<bar>x\<bar>\<rfloor> \<le> \<bar>x\<bar> \<and> \<bar>x\<bar> < 2 powi (\<lfloor>log 2 \<bar>x\<bar>\<rfloor> + 1)"
proof -
  from assms have pos: "0 < \<bar>x\<bar>" by simp
  have two: "(1::real) < 2" by simp
  from floor_log_eq_powr_iff [OF pos two, of "\<lfloor>log 2 \<bar>x\<bar>\<rfloor>", unfolded two_powr_powi]
  show ?thesis by blast
qed

lemma powi_mono_exp: "a \<le> b \<Longrightarrow> (2::real) powi a \<le> 2 powi b"
  by (rule power_int_increasing) simp_all

lemma powi_less_exp: "(2::real) powi a < 2 powi b \<Longrightarrow> a < b"
  by (metis linorder_not_less powi_mono_exp)

text \<open>Rounding a number whose binary exponent is known.\<close>

lemma fl_eval:
  assumes "2 powi e \<le> \<bar>x\<bar>" and "\<bar>x\<bar> < 2 powi (e + 1)" and "- 1022 \<le> e"
  shows "fl x = of_int (round_even (x * 2 powi (52 - e))) * 2 powi (e - 52)"
proof -
  have "(0::real) < 2 powi e" by simp
  with assms(1) have "0 < \<bar>x\<bar>" by linarith
  then have nz: "x \<noteq> 0" by simp
  from assms have "exponent x = e" by (simp add: exponent_def floor_log2_eq)
  then have u: "ulp x = 2 powi (e - 52)" by (simp add: ulp_def)
  have "x / 2 powi (e - 52) = x * 2 powi (52 - e)"
    by (simp add: power_int_diff field_simps)
  with nz u show ?thesis by (simp add: fl_def)
qed

lemma round_even_nonzero:
  assumes "1 \<le> \<bar>x\<bar>"
  shows "round_even x \<noteq> 0"
proof (cases "0 \<le> x")
  case True
  with assms have "1 \<le> x" by simp
  then have "1 \<le> \<lfloor>x\<rfloor>" by simp
  with round_even_bounds [of x] show ?thesis by linarith
next
  case False
  with assms have x: "x \<le> - 1" by simp
  then have f: "\<lfloor>x\<rfloor> \<le> - 1" by (simp add: floor_le_iff)
  show ?thesis
  proof (cases "\<lfloor>x\<rfloor> = - 1")
    case True
    then have "- 1 \<le> x" by (metis of_int_floor_le of_int_minus of_int_1)
    with x have "x = of_int (- 1)" by simp
    then have "round_even x = - 1" by (simp only: round_even_of_int)
    then show ?thesis by simp
  next
    case False
    with f have "\<lfloor>x\<rfloor> \<le> - 2" by linarith
    with round_even_bounds [of x] show ?thesis by linarith
  qed
qed

text \<open>A number of at most 53 bits times a power of two, not below the least one, is a
  double: rounding leaves it.\<close>

lemma fl_exact:
  assumes "\<bar>m\<bar> < 2 ^ 53" and "- 1074 \<le> k"
  shows "fl (of_int m * 2 powi k) = of_int m * 2 powi k"
proof (cases "m = 0")
  case True
  then show ?thesis by (simp add: fl_def)
next
  case False
  let ?x = "real_of_int m * 2 powi k"
  let ?a = "\<lfloor>log 2 \<bar>real_of_int m\<bar>\<rfloor>"
  from False have nz: "real_of_int m \<noteq> 0" by simp
  from floor_log2_bounds [OF nz] have lo: "2 powi ?a \<le> \<bar>real_of_int m\<bar>"
    and hi: "\<bar>real_of_int m\<bar> < 2 powi (?a + 1)" by simp_all
  from False have one: "1 \<le> \<bar>real_of_int m\<bar>"
    by (metis of_int_abs of_int_1_le_iff abs_ge_zero zless_imp_add1_zle zero_less_abs_iff add_0)
  have a0: "0 \<le> ?a"
  proof (rule ccontr)
    assume "\<not> 0 \<le> ?a"
    then have "?a + 1 \<le> 0" by linarith
    then have "(2::real) powi (?a + 1) \<le> 2 powi 0" by (rule powi_mono_exp)
    with hi one show False by simp
  qed
  from assms(1) have "\<bar>real_of_int m\<bar> < 2 powi 53"
    by (metis of_int_abs of_int_less_numeral_power_cancel_iff power_int_numeral)
  with lo have "(2::real) powi ?a < 2 powi 53" by linarith
  then have a52: "?a \<le> 52" using powi_less_exp [of ?a 53] by simp
  have ax: "\<bar>?x\<bar> = \<bar>real_of_int m\<bar> * 2 powi k" by (simp add: abs_mult)
  have "2 powi (?a + k) = (2::real) powi ?a * 2 powi k" by (simp add: power_int_add)
  with lo ax have xl: "2 powi (?a + k) \<le> \<bar>?x\<bar>" by (simp add: mult_right_mono)
  have "2 powi (?a + k + 1) = (2::real) powi (?a + 1) * 2 powi k"
    by (simp add: power_int_add algebra_simps)
  with hi ax have xh: "\<bar>?x\<bar> < 2 powi (?a + k + 1)" by (simp add: mult_strict_right_mono)
  from xl xh have fx: "\<lfloor>log 2 \<bar>?x\<bar>\<rfloor> = ?a + k" by (rule floor_log2_eq)
  define E where "E = max (?a + k) (- 1022)"
  have ex: "exponent ?x = E" by (simp only: exponent_def fx E_def)
  define j where "j = k - E + 52"
  have j0: "0 \<le> j" using a52 assms(2) by (simp add: j_def E_def max_def)
  have "?x / 2 powi (E - 52) = real_of_int m * 2 powi j"
    by (simp add: j_def power_int_diff power_int_add field_simps)
  also have "\<dots> = real_of_int m * 2 ^ nat j" using j0 by (simp add: power_int_nonneg_exp)
  also have "\<dots> = real_of_int (m * 2 ^ nat j)" by simp
  finally have q: "?x / 2 powi (E - 52) = real_of_int (m * 2 ^ nat j)" .
  from False have nzx: "?x \<noteq> 0" by simp
  have u: "ulp ?x = 2 powi (E - 52)" by (simp only: ulp_def ex)
  from nzx have "fl ?x = of_int (round_even (?x / ulp ?x)) * ulp ?x"
    by (simp only: fl_def if_False)
  also have "\<dots> = of_int (round_even (real_of_int (m * 2 ^ nat j))) * 2 powi (E - 52)"
    by (simp only: u q)
  also have "\<dots> = real_of_int (m * 2 ^ nat j) * 2 powi (E - 52)"
    by (simp only: round_even_of_int)
  also have "\<dots> = real_of_int m * (2 powi j * 2 powi (E - 52))"
    using j0 by (simp add: power_int_nonneg_exp)
  also have "2 powi j * 2 powi (E - 52) = (2::real) powi k"
    by (simp add: j_def power_int_add [symmetric])
  finally show ?thesis .
qed

lemma fl_bounds:
  assumes "2 powi e \<le> x" and "x < 2 powi (e + 1)" and "- 1022 \<le> e"
  shows "2 powi e \<le> fl x \<and> fl x \<le> 2 powi (e + 1)"
proof -
  have "(0::real) < 2 powi e" by simp
  with assms(1) have pos: "0 < x" by linarith
  then have ax: "\<bar>x\<bar> = x" by simp
  let ?y = "x * 2 powi (52 - e)"
  from assms have f: "fl x = of_int (round_even ?y) * 2 powi (e - 52)"
    by (intro fl_eval) (simp_all add: ax)
  have p: "(0::real) < 2 powi (52 - e)" by simp
  have "2 powi e * 2 powi (52 - e) = (2::real) ^ 52"
    by (simp add: power_int_add [symmetric])
  with assms(1) p have yl: "2 ^ 52 \<le> ?y" by (metis mult_right_mono less_imp_le)
  have "2 powi (e + 1) * 2 powi (52 - e) = (2::real) ^ 53"
    by (simp add: power_int_add [symmetric])
  with assms(2) p have yh: "?y < 2 ^ 53" by (metis mult_strict_right_mono)
  from yl have "(2::int) ^ 52 \<le> \<lfloor>?y\<rfloor>" by (simp add: le_floor_iff)
  with round_even_bounds [of ?y] have rl: "(2::int) ^ 52 \<le> round_even ?y" by linarith
  from yh have "\<lfloor>?y\<rfloor> < (2::int) ^ 53" by (simp add: floor_less_iff)
  with round_even_bounds [of ?y] have rh: "round_even ?y \<le> (2::int) ^ 53" by linarith
  have q: "(0::real) \<le> 2 powi (e - 52)" by simp
  from rl have "(2::real) ^ 52 \<le> of_int (round_even ?y)"
    by (metis of_int_le_iff of_int_numeral of_int_power)
  then have A1: "2 ^ 52 * 2 powi (e - 52) \<le> of_int (round_even ?y) * (2::real) powi (e - 52)"
    using q by (rule mult_right_mono)
  have A2: "2 ^ 52 * 2 powi (e - 52) = (2::real) powi e"
    by (simp add: power_int_diff)
  from rh have "of_int (round_even ?y) \<le> (2::real) ^ 53"
    by (metis of_int_le_iff of_int_numeral of_int_power)
  then have B1: "of_int (round_even ?y) * (2::real) powi (e - 52) \<le> 2 ^ 53 * 2 powi (e - 52)"
    using q by (rule mult_right_mono)
  have B2: "2 ^ 53 * 2 powi (e - 52) = (2::real) powi (e + 1)"
    by (simp add: power_int_diff power_int_add)
  from A1 have A: "2 powi e \<le> of_int (round_even ?y) * (2::real) powi (e - 52)"
    unfolding A2 .
  from B1 have B: "of_int (round_even ?y) * (2::real) powi (e - 52) \<le> 2 powi (e + 1)"
    unfolding B2 .
  from A B show ?thesis unfolding f by (rule conjI)
qed

lemma fl_between:
  assumes "2 powi a \<le> x" and "x < 2 powi b" and "- 1022 \<le> a"
  shows "2 powi a \<le> fl x \<and> fl x \<le> 2 powi b"
proof -
  have "(0::real) < 2 powi a" by simp
  with assms(1) have pos: "0 < x" by linarith
  then have nz: "x \<noteq> 0" and ax: "\<bar>x\<bar> = x" by simp_all
  let ?e = "\<lfloor>log 2 \<bar>x\<bar>\<rfloor>"
  from floor_log2_bounds [OF nz] ax have lo: "2 powi ?e \<le> x" and hi: "x < 2 powi (?e + 1)"
    by simp_all
  from assms(1) hi have "(2::real) powi a < 2 powi (?e + 1)" by linarith
  then have ae: "a \<le> ?e" using powi_less_exp [of a "?e + 1"] by simp
  from lo assms(2) have "(2::real) powi ?e < 2 powi b" by linarith
  then have eb: "?e + 1 \<le> b" using powi_less_exp [of ?e b] by simp
  from ae assms(3) have "- 1022 \<le> ?e" by linarith
  from fl_bounds [OF lo hi this] powi_mono_exp [OF ae] powi_mono_exp [OF eb]
  show ?thesis by linarith
qed

lemma fl_nonzero:
  assumes "2 powi (- 1022) \<le> \<bar>x\<bar>"
  shows "fl x \<noteq> 0"
proof -
  have "(0::real) < 2 powi (- 1022)" by (rule zero_less_power_int) simp
  with assms have "0 < \<bar>x\<bar>" by linarith
  then have nz: "x \<noteq> 0" by simp
  let ?e = "\<lfloor>log 2 \<bar>x\<bar>\<rfloor>"
  from floor_log2_bounds [OF nz] have lo: "2 powi ?e \<le> \<bar>x\<bar>" and hi: "\<bar>x\<bar> < 2 powi (?e + 1)"
    by simp_all
  from assms hi have "(2::real) powi (- 1022) < 2 powi (?e + 1)" by linarith
  then have e: "- 1022 \<le> ?e" using powi_less_exp [of "- 1022" "?e + 1"] by simp
  let ?y = "x * 2 powi (52 - ?e)"
  from fl_eval [OF lo hi e] have f: "fl x = of_int (round_even ?y) * 2 powi (?e - 52)" .
  have "2 powi ?e * 2 powi (52 - ?e) = (2::real) ^ 52"
    by (simp add: power_int_add [symmetric])
  moreover have "\<bar>?y\<bar> = \<bar>x\<bar> * 2 powi (52 - ?e)" by (simp add: abs_mult)
  moreover have "2 powi ?e * 2 powi (52 - ?e) \<le> \<bar>x\<bar> * (2::real) powi (52 - ?e)"
    using lo by (rule mult_right_mono) simp
  ultimately have "2 ^ 52 \<le> \<bar>?y\<bar>" by simp
  moreover have "(1::real) \<le> 2 ^ 52" by simp
  ultimately have "1 \<le> \<bar>?y\<bar>" by linarith
  then have "round_even ?y \<noteq> 0" by (rule round_even_nonzero)
  with f show ?thesis by simp
qed

text \<open>Rounding to a double: exact results, bounds, the sum of a constant array of integers.\<close>

lemma fl_zero: "fl 0 = 0"
  by (simp add: fl_def)

lemma rnd_zero: "rnd 0 = Finite 0"
  by (simp add: rnd_def fl_def)

lemma rnd_finite:
  assumes "fl x = y" and "\<bar>y\<bar> < 2 ^ 1024"
  shows "rnd x = Finite y"
proof -
  from assms(2) have "\<not> 2 ^ 1024 \<le> y" and "\<not> y \<le> - (2 ^ 1024)" by linarith+
  then show ?thesis unfolding rnd_def Let_def assms(1) by (simp only: if_False)
qed

lemma rnd_exact:
  assumes "\<bar>m\<bar> < 2 ^ 53" and "- 1074 \<le> k" and "\<bar>of_int m * 2 powi k\<bar> < (2::real) ^ 1024"
  shows "rnd (of_int m * 2 powi k) = Finite (of_int m * 2 powi k)"
  using fl_exact [OF assms(1,2)] assms(3) by (rule rnd_finite)

lemma rnd_int:
  assumes "\<bar>z\<bar> < 2 ^ 53"
  shows "rnd (of_int z) = Finite (of_int z)"
proof -
  have "\<bar>real_of_int z\<bar> < 2 ^ 53" using assms by (metis of_int_abs of_int_less_numeral_power_cancel_iff)
  also have "(2::real) ^ 53 \<le> 2 ^ 1024" by (rule power_increasing) simp_all
  finally have b: "\<bar>real_of_int z * 2 powi 0\<bar> < 2 ^ 1024" by simp
  from rnd_exact [OF assms _ b] show ?thesis by simp
qed

lemma rnd_nonzero:
  assumes "2 powi (- 1022) \<le> \<bar>x\<bar>"
  shows "rnd x \<noteq> Finite 0"
proof -
  from assms have "fl x \<noteq> 0" by (rule fl_nonzero)
  then show ?thesis by (simp add: rnd_def Let_def)
qed


lemma rnd_between:
  assumes "2 powi a \<le> x" and "x < 2 powi b" and "- 1022 \<le> a" and "b \<le> 0"
  shows "\<exists>y. rnd x = Finite y \<and> 2 powi a \<le> y \<and> y \<le> 2 powi b"
proof -
  from fl_between [OF assms(1-3)] have lo: "2 powi a \<le> fl x" and hi: "fl x \<le> 2 powi b" by simp_all
  have "(0::real) < 2 powi a" by simp
  with lo have pos: "0 < fl x" by linarith
  have "(2::real) powi b \<le> 2 powi 0" using assms(4) by (rule powi_mono_exp)
  then have "(2::real) powi b \<le> 1" by simp
  moreover have "(1::real) < 2 ^ 1024" by simp
  ultimately have "\<bar>fl x\<bar> < 2 ^ 1024" using hi pos by linarith
  with refl have "rnd x = Finite (fl x)" by (rule rnd_finite)
  with lo hi show ?thesis by blast
qed

lemma denominator_bounds:
  assumes "0 \<le> v" and "v \<le> 2 powi (- 16)"
  shows "\<exists>d. fsqrt (fadd (Finite v) (rnd (1 / 100000))) = Finite d \<and> 2 powi (- 9) \<le> d \<and> d \<le> 2 powi (- 6)"
proof -
  have "\<exists>y. rnd (1 / 100000) = Finite y \<and> 2 powi (- 17) \<le> y \<and> y \<le> 2 powi (- 16)"
    by (rule rnd_between) simp_all
  then obtain eps where eps: "rnd (1 / 100000) = Finite eps"
    and e1: "2 powi (- 17) \<le> eps" and e2: "eps \<le> 2 powi (- 16)" by blast
  have "(2::real) powi (- 16) + 2 powi (- 16) < 2 powi (- 14)" by simp
  with assms e1 e2 have s1: "2 powi (- 17) \<le> v + eps" and s2: "v + eps < 2 powi (- 14)" by linarith+
  have "\<exists>y. rnd (v + eps) = Finite y \<and> 2 powi (- 17) \<le> y \<and> y \<le> 2 powi (- 14)"
    using s1 s2 by (rule rnd_between) simp_all
  then obtain s where s: "rnd (v + eps) = Finite s"
    and s3: "2 powi (- 17) \<le> s" and s4: "s \<le> 2 powi (- 14)" by blast
  have "(0::real) < 2 powi (- 17)" by simp
  with s3 have spos: "0 < s" by linarith
  have "(2 powi (- 9))\<^sup>2 \<le> (2::real) powi (- 17)" by (simp add: power2_eq_square)
  with s3 have "(2 powi (- 9))\<^sup>2 \<le> s" by linarith
  then have q1: "2 powi (- 9) \<le> sqrt s" by (rule real_le_rsqrt)
  have "(2::real) powi (- 14) \<le> (2 powi (- 7))\<^sup>2" by (simp add: power2_eq_square)
  with s4 have "s \<le> (2 powi (- 7))\<^sup>2" by linarith
  then have "sqrt s \<le> 2 powi (- 7)" by (rule real_le_lsqrt [rotated]) simp
  moreover have "(2::real) powi (- 7) < 2 powi (- 6)" by simp
  ultimately have q2: "sqrt s < 2 powi (- 6)" by linarith
  have "\<exists>d. rnd (sqrt s) = Finite d \<and> 2 powi (- 9) \<le> d \<and> d \<le> 2 powi (- 6)"
    using q1 q2 by (rule rnd_between) simp_all
  then obtain d where d: "rnd (sqrt s) = Finite d" and d1: "2 powi (- 9) \<le> d" and d2: "d \<le> 2 powi (- 6)"
    by blast
  have "fsqrt (fadd (Finite v) (rnd (1 / 100000))) = Finite d"
    using spos by (simp add: eps s d)
  with d1 d2 show ?thesis by blast
qed

lemma summation_order_length:
  assumes "summation_order t n"
  shows "length (elems t) = n \<and> (\<forall>i \<in> set (elems t). i < n)"
proof -
  from assms have d: "distinct (elems t)" and s: "set (elems t) = {0..<n}"
    by (simp_all add: summation_order_def)
  from d have "card (set (elems t)) = length (elems t)" by (rule distinct_card)
  with s show ?thesis by simp
qed


lemma fdiv_zero:
  assumes "d \<noteq> 0"
  shows "fdiv (Finite 0) (Finite d) = Finite 0"
  using assms by (simp add: rnd_zero)

text \<open>The array of three elements 0.1, added from left to right, step by step.\<close>

lemma left_to_right_3: "left_to_right 3 = Add (Add (Elem 0) (Elem 1)) (Elem 2)"
  by (simp add: numeral_eq_Suc)


lemma tenth: "rnd (1 / 10) = Finite (7205759403792794 * 2 powi (- 56))"
proof (rule rnd_finite)
  have "fl (1 / 10) = of_int (round_even ((1 / 10) * 2 powi (52 - (- 4)))) * 2 powi (- 4 - 52)"
    by (rule fl_eval) simp_all
  moreover have "round_even ((1 / 10) * 2 powi (52 - (- 4))) = 7205759403792794"
    by (simp add: round_even_def Let_def)
  ultimately show "fl (1 / 10) = 7205759403792794 * 2 powi (- 56)" by simp
  show "\<bar>7205759403792794 * 2 powi (- 56)\<bar> < (2::real) ^ 1024" by simp
qed

lemma tenth_twice:
  "fadd (Finite (7205759403792794 * 2 powi (- 56))) (Finite (7205759403792794 * 2 powi (- 56)))
   = Finite (7205759403792794 * 2 powi (- 55))"
proof -
  have "rnd (of_int 7205759403792794 * 2 powi (- 55)) = Finite (of_int 7205759403792794 * 2 powi (- 55))"
    by (rule rnd_exact) simp_all
  then show ?thesis by simp
qed

lemma tenth_thrice:
  "fadd (Finite (7205759403792794 * 2 powi (- 55))) (Finite (7205759403792794 * 2 powi (- 56)))
   = Finite (5404319552844596 * 2 powi (- 54))"
proof -
  let ?x = "7205759403792794 * 2 powi (- 55) + 7205759403792794 * 2 powi (- 56) :: real"
  have "rnd ?x = Finite (5404319552844596 * 2 powi (- 54))"
  proof (rule rnd_finite)
    have "fl ?x = of_int (round_even (?x * 2 powi (52 - (- 2)))) * 2 powi (- 2 - 52)"
      by (rule fl_eval) simp_all
    moreover have "round_even (?x * 2 powi (52 - (- 2))) = 5404319552844596"
      by (simp add: round_even_def Let_def)
    ultimately show "fl ?x = 5404319552844596 * 2 powi (- 54)" by simp
    show "\<bar>5404319552844596 * 2 powi (- 54)\<bar> < (2::real) ^ 1024" by simp
  qed
  then show ?thesis by simp
qed

lemma tenth_mean:
  "fdiv (Finite (5404319552844596 * 2 powi (- 54))) (rnd (real 3))
   = Finite (7205759403792795 * 2 powi (- 56))"
proof -
  let ?x = "5404319552844596 * 2 powi (- 54) / 3 :: real"
  have "rnd (of_int 3) = Finite (of_int 3)" by (rule rnd_int) simp
  then have three: "rnd 3 = Finite 3" by simp
  have "rnd ?x = Finite (7205759403792795 * 2 powi (- 56))"
  proof (rule rnd_finite)
    have "fl ?x = of_int (round_even (?x * 2 powi (52 - (- 4)))) * 2 powi (- 4 - 52)"
      by (rule fl_eval) simp_all
    moreover have "round_even (?x * 2 powi (52 - (- 4))) = 7205759403792795"
      by (simp add: round_even_def Let_def)
    ultimately show "fl ?x = 7205759403792795 * 2 powi (- 56)" by simp
    show "\<bar>7205759403792795 * 2 powi (- 56)\<bar> < (2::real) ^ 1024" by simp
  qed
  then show ?thesis by (simp add: three)
qed

lemma tenth_deviation:
  "fsub (Finite (7205759403792794 * 2 powi (- 56))) (Finite (7205759403792795 * 2 powi (- 56)))
   = Finite (- (2 powi (- 56)))"
proof -
  have "rnd (of_int (- 1) * 2 powi (- 56)) = Finite (of_int (- 1) * 2 powi (- 56))"
    by (rule rnd_exact) simp_all
  then show ?thesis by (simp add: fsub_def)
qed

lemma tenth_square:
  "fmul (Finite (- (2 powi (- 56)))) (Finite (- (2 powi (- 56)))) = Finite (2 powi (- 112))"
proof -
  have "rnd (of_int 1 * 2 powi (- 112)) = Finite (of_int 1 * 2 powi (- 112))"
    by (rule rnd_exact) simp_all
  then show ?thesis by simp
qed

lemma tenth_squares:
  "fadd (fadd (Finite (2 powi (- 112))) (Finite (2 powi (- 112)))) (Finite (2 powi (- 112)))
   = Finite (3 * 2 powi (- 112))"
proof -
  have "rnd (of_int 2 * 2 powi (- 112)) = Finite (of_int 2 * 2 powi (- 112))"
    by (rule rnd_exact) simp_all
  moreover have "rnd (of_int 3 * 2 powi (- 112)) = Finite (of_int 3 * 2 powi (- 112))"
    by (rule rnd_exact) simp_all
  ultimately show ?thesis by simp
qed

lemma tenth_var:
  "fdiv (Finite (3 * 2 powi (- 112))) (rnd (real 3)) = Finite (2 powi (- 112))"
proof -
  have "rnd (of_int 3) = Finite (of_int 3)" by (rule rnd_int) simp
  then have three: "rnd 3 = Finite 3" by simp
  have "rnd (of_int 1 * 2 powi (- 112)) = Finite (of_int 1 * 2 powi (- 112))"
    by (rule rnd_exact) simp_all
  then show ?thesis by (simp add: three)
qed

lemma np_sum_f64_3: "np_sum_f64 left_to_right [a, b, c] = fadd (fadd a b) c"
  by (simp add: np_sum_f64_def left_to_right_3)

lemma np_mean_f64_3:
  "np_mean_f64 left_to_right [a, b, c] = fdiv (fadd (fadd a b) c) (rnd (real 3))"
  by (simp add: np_mean_f64_def np_sum_f64_3)

lemma np_var_f64_3:
  "np_var_f64 left_to_right [a, b, c] =
     (let m = np_mean_f64 left_to_right [a, b, c]
      in fdiv (fadd (fadd (fmul (fsub a m) (fsub a m)) (fmul (fsub b m) (fsub b m)))
                    (fmul (fsub c m) (fsub c m))) (rnd (real 3)))"
  by (simp add: np_var_f64_def np_sum_f64_3 Let_def)

lemma standardize_f64_3:
  "standardize_f64 left_to_right [[a, b, c]] =
     (let m = np_mean_f64 left_to_right [a, b, c];
          d = fsqrt (fadd (np_var_f64 left_to_right [a, b, c]) (rnd (1 / 100000)))
      in [[fdiv (fsub a m) d, fdiv (fsub b m) d, fdiv (fsub c m) d]])"
  by (simp add: standardize_f64_def Let_def)


lemma tenth_mean_3:
  "np_mean_f64 left_to_right [rnd (1 / 10), rnd (1 / 10), rnd (1 / 10)]
   = Finite (7205759403792795 * 2 powi (- 56))"
  unfolding np_mean_f64_3 tenth tenth_twice tenth_thrice by (rule tenth_mean)

lemma tenth_var_3:
  "np_var_f64 left_to_right [rnd (1 / 10), rnd (1 / 10), rnd (1 / 10)] = Finite (2 powi (- 112))"
  unfolding np_var_f64_3 tenth_mean_3 Let_def
  unfolding tenth tenth_deviation tenth_square tenth_squares by (rule tenth_var)

lemma tenth_standardized:
  "standardize_f64 left_to_right [[rnd (1 / 10), rnd (1 / 10), rnd (1 / 10)]]
   \<noteq> [[Finite 0, Finite 0, Finite 0]]"
proof -
  have "(0::real) \<le> 2 powi (- 112)" and "(2::real) powi (- 112) \<le> 2 powi (- 16)"
    by (simp, rule powi_mono_exp, simp)
  from denominator_bounds [OF this] obtain d
    where d: "fsqrt (fadd (Finite (2 powi (- 112))) (rnd (1 / 100000))) = Finite d"
      and d1: "2 powi (- 9) \<le> d" and d2: "d \<le> 2 powi (- 6)" by blast
  have "(0::real) < 2 powi (- 9)" by simp
  with d1 have dpos: "0 < d" by linarith
  let ?q = "- (2 powi (- 56)) / d"
  have "2 powi (- 56) \<le> 2 powi (- 56) / d * d" using dpos by simp
  also have "\<dots> \<le> 2 powi (- 56) / d * 2 powi (- 6)"
    using d2 dpos by (intro mult_left_mono) simp_all
  finally have "2 powi (- 56) / 2 powi (- 6) \<le> 2 powi (- 56) / d"
    by (simp add: field_simps)
  moreover have "(2::real) powi (- 1022) \<le> 2 powi (- 56) / 2 powi (- 6)"
  proof -
    have "(2::real) powi (- 56) / 2 powi (- 6) = 2 powi (- 56 - (- 6))"
      by (rule power_int_diff [symmetric]) simp
    moreover have "(2::real) powi (- 1022) \<le> 2 powi (- 56 - (- 6))" by (rule powi_mono_exp) simp
    ultimately show ?thesis by (simp only:)
  qed
  moreover have "\<bar>?q\<bar> = 2 powi (- 56) / d" using dpos by simp
  ultimately have "2 powi (- 1022) \<le> \<bar>?q\<bar>" by linarith
  then have nz: "rnd ?q \<noteq> Finite 0" by (rule rnd_nonzero)
  have q: "fdiv (Finite (- (2 powi (- 56)))) (Finite d) = rnd ?q" using dpos by simp
  have "standardize_f64 left_to_right [[rnd (1 / 10), rnd (1 / 10), rnd (1 / 10)]]
        = [[rnd ?q, rnd ?q, rnd ?q]]"
    unfolding standardize_f64_3 tenth_mean_3 tenth_var_3 Let_def d
    unfolding tenth tenth_deviation q ..
  with nz show ?thesis by simp
qed

text \<open>
  On a constant array of three elements every order of summation gives the same sum,
  so the result for the three elements 0.1 does not depend on the order.
\<close>

lemma fadd_commute: "fadd a b = fadd b a"
  by (cases a; cases b) (simp_all add: add.commute)

lemma elems_nonempty: "1 \<le> length (elems t)"
  by (induction t) simp_all

lemma elems_one:
  assumes "length (elems t) = 1"
  shows "\<exists>i. t = Elem i"
proof (cases t)
  case (Elem i)
  then show ?thesis by simp
next
  case (Add l r)
  then have "length (elems t) = length (elems l) + length (elems r)" by simp
  with assms elems_nonempty [of l] elems_nonempty [of r] have False by linarith
  then show ?thesis ..
qed

lemma sum_in_constant_one:
  assumes "length (elems t) = 1" and "\<forall>i \<in> set (elems t). i < 3"
  shows "sum_in t [x, x, x] = x"
proof -
  from elems_one [OF assms(1)] obtain i where t: "t = Elem i" by blast
  with assms(2) have "i < 3" by simp
  then have "i = 0 \<or> i = 1 \<or> i = 2" by linarith
  with t show ?thesis by auto
qed

lemma sum_in_constant_two:
  assumes "length (elems t) = 2" and "\<forall>i \<in> set (elems t). i < 3"
  shows "sum_in t [x, x, x] = fadd x x"
proof (cases t)
  case (Elem i)
  with assms(1) show ?thesis by simp
next
  case (Add l r)
  then have "length (elems t) = length (elems l) + length (elems r)" by simp
  with assms(1) elems_nonempty [of l] elems_nonempty [of r]
  have l: "length (elems l) = 1" and r: "length (elems r) = 1" by linarith+
  from assms(2) Add have il: "\<forall>i \<in> set (elems l). i < 3" and ir: "\<forall>i \<in> set (elems r). i < 3"
    by simp_all
  from sum_in_constant_one [OF l il] sum_in_constant_one [OF r ir] Add show ?thesis by simp
qed

lemma sum_in_constant_three:
  assumes "summation_order t 3"
  shows "sum_in t [x, x, x] = fadd (fadd x x) x"
proof (cases t)
  case (Elem i)
  with summation_order_length [OF assms] show ?thesis by simp
next
  case (Add l r)
  from summation_order_length [OF assms] Add
  have len: "length (elems l) + length (elems r) = 3"
    and il: "\<forall>i \<in> set (elems l). i < 3" and ir: "\<forall>i \<in> set (elems r). i < 3" by simp_all
  from len elems_nonempty [of l] elems_nonempty [of r]
  consider "length (elems l) = 1" "length (elems r) = 2" | "length (elems l) = 2" "length (elems r) = 1"
    by linarith
  then show ?thesis
  proof cases
    case 1
    from sum_in_constant_one [OF 1(1) il] sum_in_constant_two [OF 1(2) ir] Add
    have "sum_in t [x, x, x] = fadd x (fadd x x)" by simp
    then show ?thesis by (simp only: fadd_commute [of x "fadd x x"])
  next
    case 2
    from sum_in_constant_two [OF 2(1) il] sum_in_constant_one [OF 2(2) ir] Add
    show ?thesis by simp
  qed
qed

lemma np_sum_f64_three:
  assumes "summation_order (order 3) 3"
  shows "np_sum_f64 order [x, x, x] = np_sum_f64 left_to_right [x, x, x]"
proof -
  have l: "length [x, x, x] = 3" by simp
  have "np_sum_f64 order [x, x, x] = sum_in (order 3) [x, x, x]"
    unfolding np_sum_f64_def l by simp
  also have "\<dots> = fadd (fadd x x) x" using assms by (rule sum_in_constant_three)
  also have "\<dots> = np_sum_f64 left_to_right [x, x, x]" by (rule np_sum_f64_3 [symmetric])
  finally show ?thesis .
qed

lemma standardize_f64_three:
  assumes "summation_order (order 3) 3"
  shows "standardize_f64 order [[x, x, x]] = standardize_f64 left_to_right [[x, x, x]]"
proof -
  note s = np_sum_f64_three [of order, OF assms]
  have m: "np_mean_f64 order [x, x, x] = np_mean_f64 left_to_right [x, x, x]"
    by (simp only: np_mean_f64_def s)
  have v: "np_var_f64 order [x, x, x] = np_var_f64 left_to_right [x, x, x]"
    by (simp only: np_var_f64_def m Let_def list.map s)
  show ?thesis by (simp only: standardize_f64_def Let_def concat.simps append.simps m v)
qed

lemma tenth_standardized_any_order:
  assumes "summation_order (order 3) 3"
  shows "standardize_f64 order [[rnd (1 / 10), rnd (1 / 10), rnd (1 / 10)]]
         \<noteq> [[Finite 0, Finite 0, Finite 0]]"
  unfolding standardize_f64_three [of order, OF assms] by (rule tenth_standardized)




subsection \<open>Batch iterator\<close>

lemma slices_Nil: "slices B [] = []"
  by (simp add: slices.simps)

lemma slices_step: "0 < B \<Longrightarrow> xs \<noteq> [] \<Longrightarrow> slices B xs = take B xs # slices B (drop B xs)"
  by (subst slices.simps) simp

lemma concat_slices: "0 < B \<Longrightarrow> concat (slices B xs) = xs"
proof (induction B xs rule: slices.induct)
  case (1 B xs)
  show ?case
  proof (cases "xs = []")
    case True
    then show ?thesis by (simp add: slices_Nil)
  next
    case False
    with 1 show ?thesis by (simp add: slices_step)
  qed
qed

lemma sizes_slices:
  "0 < B \<Longrightarrow> map length (slices B xs)
     = replicate (length xs div B) B @ (if length xs mod B = 0 then [] else [length xs mod B])"
proof (induction B xs rule: slices.induct)
  case (1 B xs)
  show ?case
  proof (cases "xs = []")
    case True
    then show ?thesis by (simp add: slices_Nil)
  next
    case False
    note ne = this
    show ?thesis
    proof (cases "length xs < B")
      case True
      with ne 1 show ?thesis by (simp add: slices_step slices_Nil)
    next
      case False
      then have ge: "B \<le> length xs" by simp
      then have d: "length xs div B = Suc ((length xs - B) div B)"
        using "1.prems" by (simp add: le_div_geq)
      from ge have m: "length xs mod B = (length xs - B) mod B"
        by (simp add: le_mod_geq)
      from ne 1 have "map length (slices B xs)
          = B # replicate ((length xs - B) div B) B
              @ (if (length xs - B) mod B = 0 then [] else [(length xs - B) mod B])"
        using ge by (simp add: slices_step min_def)
      with d m show ?thesis by simp
    qed
  qed
qed

lemma distinct_concat_unique_index:
  "distinct (concat xss) \<Longrightarrow> k < length xss \<Longrightarrow> k' < length xss
   \<Longrightarrow> i \<in> set (xss ! k) \<Longrightarrow> i \<in> set (xss ! k') \<Longrightarrow> k = k'"
proof (induction xss arbitrary: k k')
  case Nil
  then show ?case by simp
next
  case (Cons x xss)
  from Cons.prems(1) have dx: "set x \<inter> set (concat xss) = {}" and dr: "distinct (concat xss)"
    by auto
  show ?case
  proof (cases k)
    case 0
    note k0 = this
    show ?thesis
    proof (cases k')
      case 0
      with k0 show ?thesis by simp
    next
      case (Suc m)
      with Cons.prems have "i \<in> set (xss ! m)" and "m < length xss" by simp_all
      then have "i \<in> set (concat xss)" by auto
      with k0 Cons.prems(4) dx show ?thesis by auto
    qed
  next
    case (Suc n)
    note kn = this
    show ?thesis
    proof (cases k')
      case 0
      from kn Cons.prems have "i \<in> set (xss ! n)" and "n < length xss" by simp_all
      then have "i \<in> set (concat xss)" by auto
      with 0 Cons.prems(5) dx show ?thesis by auto
    next
      case (Suc m)
      with kn Cons.prems dr Cons.IH [of n m] show ?thesis by simp
    qed
  qed
qed

lemma data_loader_sizes:
  "X \<noteq> [] \<Longrightarrow> \<exists>bs. data_loader X y B perm = Inr bs
      \<and> map (\<lambda>b. length (fst b)) bs = map length (slices B perm)"
  by (simp add: data_loader_def comp_def)

text \<open>
  Claim C5.  Ten samples with batch size 4 give three batches of sizes 4, 4, 2 in that
  order.  In general, when \<open>N\<close> is not divisible by \<open>B\<close>, the batches are
  \<open>N div B\<close> full ones followed by one of size \<open>N mod B\<close>, which is yielded and not
  dropped; and for a permutation of the indices \<open>0..<N\<close> the batches concatenated
  are the permutation, every index lying in exactly one batch.
\<close>

theorem data_loader_batches:
  "(length X = 10 \<and> length perm = 10 \<longrightarrow>
      (\<exists>bs. data_loader X y 4 perm = Inr bs \<and> map (\<lambda>b. length (fst b)) bs = [4, 4, 2]))
   \<and> (0 < B \<and> X \<noteq> [] \<and> length perm = length X \<and> length X mod B \<noteq> 0 \<longrightarrow>
        (\<exists>bs. data_loader X y B perm = Inr bs
           \<and> map (\<lambda>b. length (fst b)) bs
               = replicate (length X div B) B @ [length X mod B]))
   \<and> (0 < B \<and> distinct perm \<and> set perm = {0..<N} \<longrightarrow>
        concat (slices B perm) = perm
        \<and> (\<forall>i < N. \<exists>!k. k < length (slices B perm) \<and> i \<in> set (slices B perm ! k)))"
proof (intro conjI impI)
  assume h: "length X = 10 \<and> length perm = 10"
  then have "X \<noteq> []" by auto
  from data_loader_sizes [OF this, of y 4 perm] obtain bs where
    bs: "data_loader X y 4 perm = Inr bs"
      "map (\<lambda>b. length (fst b)) bs = map length (slices 4 perm)"
    by blast
  from h have "length perm div 4 = Suc (Suc 0)" and "length perm mod 4 = 2" by simp_all
  then have "map length (slices 4 perm) = [4, 4, 2]" by (simp add: sizes_slices)
  with bs show "\<exists>bs. data_loader X y 4 perm = Inr bs \<and> map (\<lambda>b. length (fst b)) bs = [4, 4, 2]"
    by simp
next
  assume h: "0 < B \<and> X \<noteq> [] \<and> length perm = length X \<and> length X mod B \<noteq> 0"
  then have "X \<noteq> []" by simp
  from data_loader_sizes [OF this, of y B perm] obtain bs where
    bs: "data_loader X y B perm = Inr bs"
      "map (\<lambda>b. length (fst b)) bs = map length (slices B perm)"
    by blast
  from h have "map length (slices B perm) = replicate (length X div B) B @ [length X mod B]"
    by (simp add: sizes_slices)
  with bs show "\<exists>bs. data_loader X y B perm = Inr bs
           \<and> map (\<lambda>b. length (fst b)) bs
               = replicate (length X div B) B @ [length X mod B]"
    by simp
next
  assume h: "0 < B \<and> distinct perm \<and> set perm = {0..<N}"
  then show "concat (slices B perm) = perm" by (simp add: concat_slices)
next
  assume h: "0 < B \<and> distinct perm \<and> set perm = {0..<N}"
  then have c: "concat (slices B perm) = perm" by (simp add: concat_slices)
  with h have d: "distinct (concat (slices B perm))" by simp
  show "\<forall>i < N. \<exists>!k. k < length (slices B perm) \<and> i \<in> set (slices B perm ! k)"
  proof (intro allI impI)
    fix i assume "i < N"
    with h have "i \<in> set (concat (slices B perm))" by (simp add: c)
    then obtain b where "b \<in> set (slices B perm)" and ib: "i \<in> set b" by auto
    then obtain k where k: "k < length (slices B perm)" and "slices B perm ! k = b"
      by (auto simp: in_set_conv_nth)
    with ib have ex: "k < length (slices B perm) \<and> i \<in> set (slices B perm ! k)" by simp
    show "\<exists>!k. k < length (slices B perm) \<and> i \<in> set (slices B perm ! k)"
    proof (rule ex1I [of _ k])
      show "k < length (slices B perm) \<and> i \<in> set (slices B perm ! k)" by (rule ex)
    next
      fix k' assume "k' < length (slices B perm) \<and> i \<in> set (slices B perm ! k')"
      then have "k' < length (slices B perm)" and "i \<in> set (slices B perm ! k')" by simp_all
      with d show "k' = k" using k ib \<open>slices B perm ! k = b\<close>
        by (intro distinct_concat_unique_index [of "slices B perm" k' k i]) simp_all
    qed
  qed
qed

theorem data_loader_batches_witness:
  "(\<exists>bs. data_loader (replicate 10 (0::nat)) (replicate 10 (0::nat)) 4 (rev [0..<10]) = Inr bs
       \<and> map (\<lambda>b. length (fst b)) bs = [4, 4, 2])
   \<and> (\<exists>bs. data_loader [5, 6, 7::nat] [0, 1, 0::nat] 2 [2, 0, 1] = Inr bs
       \<and> map (\<lambda>b. length (fst b)) bs = [2, 1])
   \<and> concat (slices 2 [2, 0, 1::nat]) = [2, 0, 1]
   \<and> (\<exists>!k. k < length (slices 2 [2, 0, 1::nat]) \<and> 1 \<in> set (slices 2 [2, 0, 1::nat] ! k))"
proof -
  have h1: "length (replicate 10 (0::nat)) = 10 \<and> length (rev [0..<10]) = 10" by simp
  have h2: "0 < (2::nat) \<and> [5, 6, 7::nat] \<noteq> [] \<and> length [2, 0, 1::nat] = length [5, 6, 7::nat]
              \<and> length [5, 6, 7::nat] mod 2 \<noteq> 0"
    by simp
  have h3: "0 < (2::nat) \<and> distinct [2, 0, 1::nat] \<and> set [2, 0, 1::nat] = {0..<3}" by auto
  have i: "(1::nat) < 3" by simp
  note a = data_loader_batches
         [of "replicate 10 (0::nat)" "rev [0..<10]" "replicate 10 (0::nat)" 0 0,
          THEN conjunct1, THEN mp, OF h1]
  have b: "\<exists>bs. data_loader [5, 6, 7::nat] [0, 1, 0::nat] 2 [2, 0, 1] = Inr bs
       \<and> map (\<lambda>b. length (fst b)) bs = [2, 1]"
    using data_loader_batches
         [of "[5, 6, 7::nat]" "[2, 0, 1]" "[0, 1, 0::nat]" 2 0,
          THEN conjunct2, THEN conjunct1, THEN mp, OF h2]
    by simp
  note c = data_loader_batches
         [of "[]::nat list" "[2, 0, 1]" "[]::nat list" 2 3,
          THEN conjunct2, THEN conjunct2, THEN mp, OF h3]
  from c have c1: "concat (slices 2 [2, 0, 1::nat]) = [2, 0, 1]" by (rule conjunct1)
  from c [THEN conjunct2, rule_format, OF i]
  have c2: "\<exists>!k. k < length (slices 2 [2, 0, 1::nat]) \<and> 1 \<in> set (slices 2 [2, 0, 1::nat] ! k)" .
  from a b c1 c2 show ?thesis by (intro conjI)
qed

subsection \<open>Classifier\<close>

lemma bind_err_Inr [simp]: "bind_err (Inr x) f = f x"
  by (simp add: bind_err_def)

lemma bind_err_Inl [simp]: "bind_err (Inl e) f = Inl e"
  by (simp add: bind_err_def)

lemma map_err_all:
  "\<forall>x \<in> set xs. \<exists>y. f x = Inr y \<and> P y
   \<Longrightarrow> \<exists>ys. map_err f xs = Inr ys \<and> length ys = length xs \<and> (\<forall>y \<in> set ys. P y)"
proof (induction xs)
  case Nil
  then show ?case by simp
next
  case (Cons x xs)
  then obtain y where y: "f x = Inr y" "P y" by auto
  from Cons obtain ys where ys: "map_err f xs = Inr ys" "length ys = length xs" "\<forall>y \<in> set ys. P y"
    by auto
  from y ys show ?case by simp
qed

lemma forward_features:
  "forward self x =
     bind_err (features self x) (\<lambda>h.
     bind_err (map_err (linear_apply (fc2 self)) h) (\<lambda>z. Inr (map (map relu) z)))"
  by (simp add: forward_def features_def bind_err_def split: sum.splits)

lemma forward_spec_features:
  "forward_spec self x = bind_err (features self x) (map_err (linear_apply (fc2 self)))"
  by (simp add: forward_spec_def features_def bind_err_def split: sum.splits)

lemma shape3_height: "shape3 c h w x \<Longrightarrow> 0 < c \<Longrightarrow> height x = h"
  by (cases x) (auto simp: shape3_def height_def)

lemma shape3_width: "shape3 c h w x \<Longrightarrow> 0 < c \<Longrightarrow> 0 < h \<Longrightarrow> width x = w"
proof -
  assume a: "shape3 c h w x" "0 < c" "0 < h"
  then obtain ch rest where x: "x = ch # rest" by (cases x) (auto simp: shape3_def)
  with a obtain row rows where ch: "ch = row # rows" by (cases ch) (auto simp: shape3_def)
  from a x ch show ?thesis by (auto simp: shape3_def width_def)
qed

lemma conv2d_shape:
  assumes "shape3 (in_channels L) h w x" and "0 < in_channels L"
    and "0 < kernel_size L" and "kernel_size L \<le> h" and "kernel_size L \<le> w"
  shows "\<exists>y. conv2d_apply L x = Inr y
           \<and> shape3 (out_channels L) (h - kernel_size L + 1) (w - kernel_size L + 1) y"
proof -
  from assms have hx: "height x = h" by (auto intro: shape3_height)
  from assms have wx: "width x = w" by (intro shape3_width [of "in_channels L" h w x]) auto
  from assms(1) have lx: "length x = in_channels L" by (simp add: shape3_def)
  show ?thesis using assms(3-5) hx wx lx
    by (auto simp: conv2d_apply_def Let_def shape3_def)
qed

lemma maxpool2d_shape:
  assumes "shape3 c h w x" and "0 < c"
    and "0 < pool_size P" and "0 < stride P" and "pool_size P \<le> h" and "pool_size P \<le> w"
  shows "\<exists>y. maxpool2d_apply P x = Inr y
           \<and> shape3 c ((h - pool_size P) div stride P + 1) ((w - pool_size P) div stride P + 1) y"
proof -
  from assms have hx: "height x = h" by (auto intro: shape3_height)
  from assms have wx: "width x = w" by (intro shape3_width [of c h w x]) auto
  from assms(1) have lx: "length x = c" by (simp add: shape3_def)
  show ?thesis using assms(3-6) hx wx lx
    by (auto simp: maxpool2d_apply_def Let_def shape3_def)
qed

lemma relu_shape: "shape3 c h w x \<Longrightarrow> shape3 c h w (map (map (map relu)) x)"
  by (auto simp: shape3_def)

lemma flatten_shape:
  assumes "shape3 c h w x"
  shows "length (concat (concat x)) = c * h * w"
proof -
  from assms have "\<forall>ch \<in> set x. length ch = h" by (simp add: shape3_def)
  then have a: "length (concat x) = length x * h" by (rule length_concat_const)
  from assms have "\<forall>row \<in> set (concat x). length row = w" by (auto simp: shape3_def)
  then have "length (concat (concat x)) = length (concat x) * w" by (rule length_concat_const)
  with a assms show ?thesis by (simp add: shape3_def)
qed

lemma linear_shape:
  "length v = in_features L
   \<Longrightarrow> \<exists>y. linear_apply L v = Inr y \<and> length y = out_features L"
  by (simp add: linear_apply_def)

lemma features_ok:
  assumes "\<forall>s \<in> set x. shape3 1 28 28 s"
  shows "\<exists>h. features (CNN_init p) x = Inr h \<and> length h = length x
             \<and> (\<forall>v \<in> set h. length v = 50)"
proof -
  let ?net = "CNN_init p"
  have c1: "\<forall>s \<in> set x. \<exists>y. conv2d_apply (conv1 ?net) s = Inr y \<and> shape3 10 24 24 y"
  proof
    fix s assume "s \<in> set x"
    with assms have "shape3 (in_channels (conv1 ?net)) 28 28 s"
      by (simp add: CNN_init_def Conv2d_def)
    from conv2d_shape [OF this]
    show "\<exists>y. conv2d_apply (conv1 ?net) s = Inr y \<and> shape3 10 24 24 y"
      by (simp add: CNN_init_def Conv2d_def)
  qed
  from map_err_all [OF c1] obtain a1 where
    a1: "map_err (conv2d_apply (conv1 ?net)) x = Inr a1" "length a1 = length x"
      "\<forall>y \<in> set a1. shape3 10 24 24 y"
    by blast
  have p1: "\<forall>s \<in> set (map (map (map (map relu))) a1).
              \<exists>y. maxpool2d_apply (pool1 ?net) s = Inr y \<and> shape3 10 12 12 y"
  proof
    fix s assume "s \<in> set (map (map (map (map relu))) a1)"
    with a1(3) have "shape3 10 24 24 s" by (auto intro: relu_shape)
    from maxpool2d_shape [OF this, of "pool1 ?net"]
    show "\<exists>y. maxpool2d_apply (pool1 ?net) s = Inr y \<and> shape3 10 12 12 y"
      by (simp add: CNN_init_def MaxPool2d_def)
  qed
  from map_err_all [OF p1] obtain a2 where
    a2: "map_err (maxpool2d_apply (pool1 ?net)) (map (map (map (map relu))) a1) = Inr a2"
      "length a2 = length a1" "\<forall>y \<in> set a2. shape3 10 12 12 y"
    by auto
  have c2: "\<forall>s \<in> set a2. \<exists>y. conv2d_apply (conv2 ?net) s = Inr y \<and> shape3 20 8 8 y"
  proof
    fix s assume "s \<in> set a2"
    with a2(3) have "shape3 (in_channels (conv2 ?net)) 12 12 s"
      by (simp add: CNN_init_def Conv2d_def)
    from conv2d_shape [OF this]
    show "\<exists>y. conv2d_apply (conv2 ?net) s = Inr y \<and> shape3 20 8 8 y"
      by (simp add: CNN_init_def Conv2d_def)
  qed
  from map_err_all [OF c2] obtain a3 where
    a3: "map_err (conv2d_apply (conv2 ?net)) a2 = Inr a3" "length a3 = length a2"
      "\<forall>y \<in> set a3. shape3 20 8 8 y"
    by blast
  have p2: "\<forall>s \<in> set (map (map (map (map relu))) a3).
              \<exists>y. maxpool2d_apply (pool2 ?net) s = Inr y \<and> shape3 20 4 4 y"
  proof
    fix s assume "s \<in> set (map (map (map (map relu))) a3)"
    with a3(3) have "shape3 20 8 8 s" by (auto intro: relu_shape)
    from maxpool2d_shape [OF this, of "pool2 ?net"]
    show "\<exists>y. maxpool2d_apply (pool2 ?net) s = Inr y \<and> shape3 20 4 4 y"
      by (simp add: CNN_init_def MaxPool2d_def)
  qed
  from map_err_all [OF p2] obtain a4 where
    a4: "map_err (maxpool2d_apply (pool2 ?net)) (map (map (map (map relu))) a3) = Inr a4"
      "length a4 = length a3" "\<forall>y \<in> set a4. shape3 20 4 4 y"
    by auto
  have f1: "\<forall>v \<in> set (map (\<lambda>s. concat (concat s)) a4).
              \<exists>y. linear_apply (fc1 ?net) v = Inr y \<and> length y = 50"
  proof
    fix v assume "v \<in> set (map (\<lambda>s. concat (concat s)) a4)"
    then obtain s where "s \<in> set a4" and v: "v = concat (concat s)" by auto
    with a4(3) have "shape3 20 4 4 s" by simp
    then have "length (concat (concat s)) = 20 * 4 * 4" by (rule flatten_shape)
    with v have "length v = in_features (fc1 ?net)" by (simp add: CNN_init_def Linear_def)
    from linear_shape [OF this]
    show "\<exists>y. linear_apply (fc1 ?net) v = Inr y \<and> length y = 50"
      by (simp add: CNN_init_def Linear_def)
  qed
  from map_err_all [OF f1] obtain a5 where
    a5: "map_err (linear_apply (fc1 ?net)) (map (\<lambda>s. concat (concat s)) a4) = Inr a5"
      "length a5 = length a4" "\<forall>y \<in> set a5. length y = 50"
    by auto
  have "features ?net x = Inr (map (map relu) a5)"
    by (simp add: features_def a1(1) a2(1) a3(1) a4(1) a5(1))
  moreover have "length (map (map relu) a5) = length x"
    using a1(2) a2(2) a3(2) a4(2) a5(2) by simp
  moreover have "\<forall>v \<in> set (map (map relu) a5). length v = 50"
    using a5(3) by simp
  ultimately show ?thesis by blast
qed

lemma linear_zero_weight:
  assumes "length v = m"
  shows "linear_apply (Linear m n (replicate n (replicate m 0)) (replicate n c)) v
           = Inr (replicate n c)"
proof -
  have z: "(\<Sum>i\<leftarrow>[0..<m]. replicate n (replicate m 0) ! oc ! i * v ! i) = 0" if "oc < n" for oc
  proof -
    have "map (\<lambda>i. replicate n (replicate m (0::real)) ! oc ! i * v ! i) [0..<m]
            = map (\<lambda>i. 0) [0..<m]"
      using that by simp
    then have "(\<Sum>i\<leftarrow>[0..<m]. replicate n (replicate m (0::real)) ! oc ! i * v ! i)
                 = (\<Sum>i\<leftarrow>[0..<m]. 0)"
      by (rule arg_cong)
    then show ?thesis by simp
  qed
  have "map (\<lambda>oc. replicate n c ! oc
               + (\<Sum>i\<leftarrow>[0..<m]. replicate n (replicate m 0) ! oc ! i * v ! i)) [0..<n]
          = map (\<lambda>oc. c) [0..<n]"
    using z by simp
  also have "\<dots> = replicate n c" by (simp add: map_replicate_const)
  finally show ?thesis using assms by (simp add: linear_apply_def Linear_def)
qed

lemma example_fc2:
  "length v = 50
   \<Longrightarrow> linear_apply (fc2 (CNN_init example_parameters)) v = Inr (replicate 10 (- 1))"
  by (simp add: CNN_init_def example_parameters_def linear_zero_weight)

lemma example_image_shape: "\<forall>s \<in> set (replicate n example_image). shape3 1 28 28 s"
  by (simp add: shape3_def example_image_def)

lemma map_err_const:
  "\<forall>x \<in> set xs. f x = Inr c \<Longrightarrow> map_err f xs = Inr (replicate (length xs) c)"
  by (induction xs) simp_all

text \<open>On samples of the right shape the example network returns \<open>-1\<close> ten times from
  its last layer, and so zero ten times from \<open>forward\<close>.\<close>

lemma example_forward_spec:
  assumes "\<forall>s \<in> set x. shape3 1 28 28 s"
  shows "forward_spec (CNN_init example_parameters) x
           = Inr (replicate (length x) (replicate 10 (- 1)))"
proof -
  from features_ok [OF assms, of example_parameters] obtain h where
    h: "features (CNN_init example_parameters) x = Inr h" "length h = length x"
      "\<forall>v \<in> set h. length v = 50"
    by blast
  from h(3) have "\<forall>v \<in> set h. linear_apply (fc2 (CNN_init example_parameters)) v
                     = Inr (replicate 10 (- 1))"
    by (simp add: example_fc2)
  then have "map_err (linear_apply (fc2 (CNN_init example_parameters))) h
               = Inr (replicate (length h) (replicate 10 (- 1)))"
    by (rule map_err_const)
  with h(1,2) show ?thesis by (simp add: forward_spec_features)
qed

lemma forward_relu_spec:
  "forward self x = bind_err (forward_spec self x) (\<lambda>z. Inr (map (map relu) z))"
  by (simp add: forward_features forward_spec_features bind_err_def split: sum.splits)

lemma example_forward:
  assumes "\<forall>s \<in> set x. shape3 1 28 28 s"
  shows "forward (CNN_init example_parameters) x = Inr (replicate (length x) (replicate 10 0))"
  using example_forward_spec [OF assms] by (simp add: forward_relu_spec relu_def)

text \<open>
  Claim C1, as stated, fails: \<^verbatim>\<open>forward\<close> ends with \<^verbatim>\<open>F.relu(self.fc2(x))\<close>.  On
  the example network the last fully-connected layer returns \<open>-1\<close> for every class
  and \<open>forward\<close> returns \<open>0\<close>: the output is not the raw vector of that layer.
\<close>

theorem forward_final_relu_counterexample:
  "forward_spec (CNN_init example_parameters) [example_image] = Inr [replicate 10 (- 1)]
   \<and> forward (CNN_init example_parameters) [example_image] = Inr [replicate 10 0]
   \<and> forward (CNN_init example_parameters) [example_image]
       \<noteq> forward_spec (CNN_init example_parameters) [example_image]"
proof -
  have s: "\<forall>s \<in> set [example_image]. shape3 1 28 28 s"
    using example_image_shape [of 1] by simp
  have a: "forward_spec (CNN_init example_parameters) [example_image] = Inr [replicate 10 (- 1)]"
    using example_forward_spec [OF s] by simp
  have b: "forward (CNN_init example_parameters) [example_image] = Inr [replicate 10 0]"
    using example_forward [OF s] by simp
  have "replicate 10 (0::real) \<noteq> replicate 10 (- 1)"
    by simp
  with a b show ?thesis by simp
qed

lemma relu_nonneg: "0 \<le> relu v"
  by (simp add: relu_def)

text \<open>
  Claim C1, amended.  The layers are configured as convolution(1,10,5), max-pool(2,2),
  convolution(10,20,5), max-pool(2,2), fully-connected(320,50), fully-connected(50,10),
  and \<open>forward\<close> is the chain of the specification followed by one more ReLU: the
  output is the ReLU of the output of the last fully-connected layer.  On a batch of
  samples of shape \<open>(1, 28, 28)\<close> it returns one vector of length 10 per sample, with
  no negative entry.
\<close>

theorem forward_topology:
  "in_channels (conv1 (CNN_init p)) = 1 \<and> out_channels (conv1 (CNN_init p)) = 10
   \<and> kernel_size (conv1 (CNN_init p)) = 5 \<and> pool1 (CNN_init p) = MaxPool2d 2 2
   \<and> in_channels (conv2 (CNN_init p)) = 10 \<and> out_channels (conv2 (CNN_init p)) = 20
   \<and> kernel_size (conv2 (CNN_init p)) = 5 \<and> pool2 (CNN_init p) = MaxPool2d 2 2
   \<and> in_features (fc1 (CNN_init p)) = 320 \<and> out_features (fc1 (CNN_init p)) = 50
   \<and> in_features (fc2 (CNN_init p)) = 50 \<and> out_features (fc2 (CNN_init p)) = 10
   \<and> forward self x = bind_err (forward_spec self x) (\<lambda>z. Inr (map (map relu) z))
   \<and> ((\<forall>s \<in> set x. shape3 1 28 28 s) \<longrightarrow>
        (\<exists>zs. forward_spec (CNN_init p) x = Inr zs
           \<and> forward (CNN_init p) x = Inr (map (map relu) zs)
           \<and> length zs = length x \<and> (\<forall>z \<in> set zs. length z = 10)
           \<and> (\<forall>y \<in> set (map (map relu) zs). length y = 10 \<and> (\<forall>v \<in> set y. 0 \<le> v))))"
proof -
  have cfg: "in_channels (conv1 (CNN_init p)) = 1 \<and> out_channels (conv1 (CNN_init p)) = 10
   \<and> kernel_size (conv1 (CNN_init p)) = 5 \<and> pool1 (CNN_init p) = MaxPool2d 2 2
   \<and> in_channels (conv2 (CNN_init p)) = 10 \<and> out_channels (conv2 (CNN_init p)) = 20
   \<and> kernel_size (conv2 (CNN_init p)) = 5 \<and> pool2 (CNN_init p) = MaxPool2d 2 2
   \<and> in_features (fc1 (CNN_init p)) = 320 \<and> out_features (fc1 (CNN_init p)) = 50
   \<and> in_features (fc2 (CNN_init p)) = 50 \<and> out_features (fc2 (CNN_init p)) = 10"
    by (simp add: CNN_init_def Conv2d_def Linear_def)
  have run: "\<exists>zs. forward_spec (CNN_init p) x = Inr zs
           \<and> forward (CNN_init p) x = Inr (map (map relu) zs)
           \<and> length zs = length x \<and> (\<forall>z \<in> set zs. length z = 10)
           \<and> (\<forall>y \<in> set (map (map relu) zs). length y = 10 \<and> (\<forall>v \<in> set y. 0 \<le> v))"
    if sh: "\<forall>s \<in> set x. shape3 1 28 28 s"
  proof -
    from features_ok [OF sh, of p] obtain h where
      h: "features (CNN_init p) x = Inr h" "length h = length x" "\<forall>v \<in> set h. length v = 50"
      by blast
    have "\<forall>v \<in> set h. \<exists>y. linear_apply (fc2 (CNN_init p)) v = Inr y \<and> length y = 10"
    proof
      fix v assume "v \<in> set h"
      with h(3) have "length v = in_features (fc2 (CNN_init p))"
        by (simp add: CNN_init_def Linear_def)
      from linear_shape [OF this]
      show "\<exists>y. linear_apply (fc2 (CNN_init p)) v = Inr y \<and> length y = 10"
        by (simp add: CNN_init_def Linear_def)
    qed
    from map_err_all [OF this] obtain zs where
      zs: "map_err (linear_apply (fc2 (CNN_init p))) h = Inr zs" "length zs = length h"
        "\<forall>z \<in> set zs. length z = 10"
      by blast
    have a: "forward_spec (CNN_init p) x = Inr zs"
      by (simp add: forward_spec_features h(1) zs(1))
    then have b: "forward (CNN_init p) x = Inr (map (map relu) zs)"
      by (simp add: forward_relu_spec)
    have c: "\<forall>y \<in> set (map (map relu) zs). length y = 10 \<and> (\<forall>v \<in> set y. 0 \<le> v)"
      using zs(3) by (auto simp: relu_nonneg)
    from a b c zs(2,3) h(2) show ?thesis by simp
  qed
  from cfg forward_relu_spec [of self x] run show ?thesis by blast
qed

theorem forward_topology_witness:
  "\<exists>zs. forward_spec (CNN_init example_parameters) [example_image, example_image] = Inr zs
     \<and> forward (CNN_init example_parameters) [example_image, example_image]
         = Inr (map (map relu) zs)
     \<and> length zs = 2"
proof -
  have s: "\<forall>s \<in> set [example_image, example_image]. shape3 1 28 28 s"
    by (simp add: shape3_def example_image_def)
  from forward_topology [of example_parameters "CNN_init example_parameters"
         "[example_image, example_image]"]
  have "(\<forall>s \<in> set [example_image, example_image]. shape3 1 28 28 s) \<longrightarrow>
        (\<exists>zs. forward_spec (CNN_init example_parameters) [example_image, example_image] = Inr zs
           \<and> forward (CNN_init example_parameters) [example_image, example_image]
               = Inr (map (map relu) zs)
           \<and> length zs = length [example_image, example_image] \<and> (\<forall>z \<in> set zs. length z = 10)
           \<and> (\<forall>y \<in> set (map (map relu) zs). length y = 10 \<and> (\<forall>v \<in> set y. 0 \<le> v)))"
    by (elim conjE)
  from this [THEN mp, OF s] show ?thesis by auto
qed

subsection \<open>Training loop\<close>

lemma int_mod_boundary:
  "0 < M \<Longrightarrow> (int i mod int M = int M - 1) = (i mod M = M - 1)"
proof -
  assume M: "0 < M"
  have "int i mod int M = int (i mod M)" by (simp add: zmod_int)
  moreover from M have "int M - 1 = int (M - 1)" by simp
  ultimately show ?thesis by (simp only: of_nat_eq_iff)
qed

lemma enumerate_snoc: "enumerate i (xs @ [x]) = enumerate i xs @ [(i + length xs, x)]"
  by (simp add: enumerate_append_eq)

text \<open>The bookkeeping in closed form, from an empty accumulator at batch 0.\<close>

lemma book_closed_form:
  assumes M: "0 < M"
  shows "foldl (book (int M) e) (0, out) (enumerate 0 ls)
           = (sum_list (drop (length ls div M * M) ls),
              out @ map (\<lambda>k. (e + 1, (k + 1) * M, sum_list (take M (drop (k * M) ls)) / real M))
                      [0..<length ls div M])"
proof (induction ls rule: rev_induct)
  case Nil
  then show ?case by simp
next
  case (snoc l ls)
  let ?n = "length ls"
  let ?q = "?n div M"
  have qn: "?q * M \<le> ?n" by simp
  have old: "map (\<lambda>k. (e + 1, (k + 1) * M, sum_list (take M (drop (k * M) (ls @ [l]))) / real M))
                [0..<?q]
           = map (\<lambda>k. (e + 1, (k + 1) * M, sum_list (take M (drop (k * M) ls)) / real M)) [0..<?q]"
  proof (rule map_cong [OF refl])
    fix k assume "k \<in> set [0..<?q]"
    then have "Suc k \<le> ?q" by simp
    then have "Suc k * M \<le> ?q * M" by (rule mult_le_mono1)
    then have "Suc k * M \<le> ?n" using qn by (rule order_trans)
    then have k: "k * M + M \<le> ?n" by simp
    then have "take M (drop (k * M) (ls @ [l])) = take M (drop (k * M) ls)" by simp
    then show "(e + 1, (k + 1) * M, sum_list (take M (drop (k * M) (ls @ [l]))) / real M)
             = (e + 1, (k + 1) * M, sum_list (take M (drop (k * M) ls)) / real M)"
      by (simp only:)
  qed
  have step: "foldl (book (int M) e) (0, out) (enumerate 0 (ls @ [l]))
      = book (int M) e
          (sum_list (drop (?q * M) ls),
           out @ map (\<lambda>k. (e + 1, (k + 1) * M, sum_list (take M (drop (k * M) ls)) / real M))
                   [0..<?q])
          (?n, l)"
    by (simp add: enumerate_snoc snoc.IH)
  show ?case
  proof (cases "?n mod M = M - 1")
    case True
    have "Suc ?n = ?q * M + Suc (?n mod M)" by simp
    also from True M have "Suc (?n mod M) = M" by simp
    finally have n1: "Suc ?n = Suc ?q * M" by simp
    then have q1: "Suc ?n div M = Suc ?q" using M by simp
    have last: "take M (drop (?q * M) (ls @ [l])) = drop (?q * M) ls @ [l]"
      using qn n1 by simp
    from True M have "book (int M) e
          (sum_list (drop (?q * M) ls),
           out @ map (\<lambda>k. (e + 1, (k + 1) * M, sum_list (take M (drop (k * M) ls)) / real M))
                   [0..<?q])
          (?n, l)
       = (0, out @ map (\<lambda>k. (e + 1, (k + 1) * M, sum_list (take M (drop (k * M) ls)) / real M))
                   [0..<?q]
               @ [(e + 1, ?n + 1, (sum_list (drop (?q * M) ls) + l) / real M)])"
      by (simp add: book_def int_mod_boundary)
    with step old q1 n1 last show ?thesis by simp
  next
    case False
    from M have "?n mod M < M" by simp
    with False have lt: "Suc (?n mod M) < M" by simp
    have "Suc ?n div M = ?q" using lt by (simp add: div_Suc mod_Suc split: if_splits)
    then have q1: "length (ls @ [l]) div M = ?q" by simp
    from False M have "book (int M) e
          (sum_list (drop (?q * M) ls),
           out @ map (\<lambda>k. (e + 1, (k + 1) * M, sum_list (take M (drop (k * M) ls)) / real M))
                   [0..<?q])
          (?n, l)
       = (sum_list (drop (?q * M) ls) + l,
          out @ map (\<lambda>k. (e + 1, (k + 1) * M, sum_list (take M (drop (k * M) ls)) / real M))
                   [0..<?q])"
      by (simp add: book_def int_mod_boundary)
    with step old qn show ?thesis unfolding q1 by simp
  qed
qed

lemma train_loop_book:
  assumes "m \<noteq> 0" and "length (losses T ds (optimizer s) (cnn s)) = length ds"
  shows "\<exists>s'. fold_err (train_batch T m e) (enumerate i ds) s = Inr s'
           \<and> (running_loss s', printed s')
               = foldl (book m e) (running_loss s, printed s)
                   (enumerate i (losses T ds (optimizer s) (cnn s)))"
  using assms(2)
proof (induction ds arbitrary: i s)
  case Nil
  then show ?case by simp
next
  case (Cons data rest)
  obtain opt' net' where step: "optimizer_step T (optimizer s) (cnn s) data = (opt', net')"
    by (cases "optimizer_step T (optimizer s) (cnn s) data")
  from Cons.prems obtain loss where
    loss: "bind_err (forward (cnn s) (fst data)) (\<lambda>outputs. criterion T outputs (snd data))
             = Inr loss"
    by (cases "bind_err (forward (cnn s) (fst data)) (\<lambda>outputs. criterion T outputs (snd data))")
       simp_all
  with Cons.prems step have ls: "losses T (data # rest) (optimizer s) (cnn s)
      = loss # losses T rest opt' net'"
    and len: "length (losses T rest opt' net') = length rest"
    by simp_all
  from loss obtain outputs where out: "forward (cnn s) (fst data) = Inr outputs"
    and crit: "criterion T outputs (snd data) = Inr loss"
    by (cases "forward (cnn s) (fst data)") simp_all
  let ?s1 = "s\<lparr>cnn := net', optimizer := opt', running_loss := running_loss s + loss\<rparr>"
  let ?s2 = "if int i mod m = m - 1
             then ?s1\<lparr>printed := printed ?s1
                        @ [(e + 1, i + 1, running_loss ?s1 / real_of_int m)],
                      running_loss := 0\<rparr>
             else ?s1"
  have one: "train_batch T m e (i, data) s = Inr ?s2"
    using assms(1) out crit step by (simp add: train_batch_def Let_def)
  have bk: "(running_loss ?s2, printed ?s2) = book m e (running_loss s, printed s) (i, loss)"
    by (simp add: book_def)
  have o2: "optimizer ?s2 = opt'" and c2: "cnn ?s2 = net'" by simp_all
  from len have "length (losses T rest (optimizer ?s2) (cnn ?s2)) = length rest"
    by (simp only: o2 c2)
  from Cons.IH [OF this, of "Suc i"] obtain s' where
    s': "fold_err (train_batch T m e) (enumerate (Suc i) rest) ?s2 = Inr s'"
      "(running_loss s', printed s')
         = foldl (book m e) (running_loss ?s2, printed ?s2)
             (enumerate (Suc i) (losses T rest (optimizer ?s2) (cnn ?s2)))"
    by blast
  have "fold_err (train_batch T m e) (enumerate i (data # rest)) s = Inr s'"
    by (simp add: one s'(1) del: train_state.simps)
  moreover have "(running_loss s', printed s')
      = foldl (book m e) (running_loss s, printed s)
          (enumerate i (losses T (data # rest) (optimizer s) (cnn s)))"
    by (simp only: ls enumerate_simps foldl_Cons s'(2) bk o2 c2)
  ultimately show ?case by blast
qed

lemma train_epoch_run:
  assumes "0 < M"
    and "length (losses T (train_loader epoch) (optimizer st) (cnn st)) = length (train_loader epoch)"
  shows "\<exists>st'. train_epoch T (int M) train_loader epoch st = Inr st'
     \<and> printed st' = printed st
          @ map (\<lambda>k. (epoch + 1, (k + 1) * M,
                       sum_list (take M (drop (k * M)
                         (losses T (train_loader epoch) (optimizer st) (cnn st)))) / real M))
              [0..<length (train_loader epoch) div M]
     \<and> running_loss st' = sum_list (drop (length (train_loader epoch) div M * M)
                               (losses T (train_loader epoch) (optimizer st) (cnn st)))"
proof -
  let ?s0 = "st\<lparr>running_loss := 0\<rparr>"
  let ?ls = "losses T (train_loader epoch) (optimizer st) (cnn st)"
  from assms(1) have m: "int M \<noteq> 0" by simp
  from assms(2) have "length (losses T (train_loader epoch) (optimizer ?s0) (cnn ?s0))
                        = length (train_loader epoch)"
    by simp
  from train_loop_book [OF m this, of epoch 0] obtain st' where
    run: "fold_err (train_batch T (int M) epoch) (enumerate 0 (train_loader epoch)) ?s0 = Inr st'"
    and bk: "(running_loss st', printed st')
               = foldl (book (int M) epoch) (0, printed st) (enumerate 0 ?ls)"
    by auto
  from bk have "(running_loss st', printed st')
      = (sum_list (drop (length ?ls div M * M) ?ls),
         printed st @ map (\<lambda>k. (epoch + 1, (k + 1) * M,
                                 sum_list (take M (drop (k * M) ?ls)) / real M))
                        [0..<length ?ls div M])"
    by (simp only: book_closed_form [OF assms(1)])
  with assms(2) run show ?thesis by (simp add: train_epoch_def)
qed

lemma example_forward_one:
  "forward (CNN_init example_parameters) [example_image] = Inr [replicate 10 0]"
  using example_forward [of "[example_image]"] example_image_shape [of 1] by simp

lemma example_losses:
  "losses example_torch (example_loader epoch) opt (CNN_init example_parameters) = [1, 1, 1]"
  by (simp add: example_loader_def example_torch_def example_forward_one numeral_3_eq_3)

text \<open>
  Claim C2, as stated, fails: the accumulator is also reset by \<^verbatim>\<open>running_loss = 0.0\<close>
  at the start of every epoch.  With a report every 2 batches and 3 batches per epoch,
  all of loss 1, the accumulator holds 1 after the third batch of the first epoch, where
  nothing is reported; the second epoch, started with that accumulator, reports the mean
  1 of its own first two batches (not 3/2): the 1 was dropped at the start of the epoch.
\<close>

theorem train_epoch_reset_counterexample:
  "train_epoch example_torch 2 example_loader 0
     \<lparr>cnn = CNN_init example_parameters, optimizer = (), running_loss = 0, printed = []\<rparr>
   = Inr \<lparr>cnn = CNN_init example_parameters, optimizer = (), running_loss = 1,
          printed = [(1, 2, 1)]\<rparr>
   \<and> train_epoch example_torch 2 example_loader 1
     \<lparr>cnn = CNN_init example_parameters, optimizer = (), running_loss = 1,
      printed = [(1, 2, 1)]\<rparr>
   = Inr \<lparr>cnn = CNN_init example_parameters, optimizer = (), running_loss = 1,
          printed = [(1, 2, 1), (2, 2, 1)]\<rparr>"
  by (simp add: train_epoch_def train_batch_def example_loader_def example_torch_def
        example_forward_one numeral_3_eq_3)

text \<open>
  Claim C2, amended.  An epoch starts from an accumulator of zero, whatever the state
  before.  When the report interval \<open>M\<close> is positive and the forward pass and the loss
  succeed on every batch, the epoch returns; it has printed, after each \<open>M\<close> batches
  of the epoch, the epoch number, the number of batches so far and the mean of the losses
  of exactly these last \<open>M\<close> batches; and the accumulator holds the sum of the losses
  of the batches after the last report: it was reset at each report, and nowhere else
  within the epoch.
\<close>

theorem train_epoch_reports:
  "train_epoch T m train_loader epoch st
     = train_epoch T m train_loader epoch (st\<lparr>running_loss := 0\<rparr>)
   \<and> (0 < M \<and> length (losses T (train_loader epoch) (optimizer st) (cnn st))
                = length (train_loader epoch)
      \<longrightarrow> (\<exists>st'. train_epoch T (int M) train_loader epoch st = Inr st'
             \<and> printed st' = printed st
                  @ map (\<lambda>k. (epoch + 1, (k + 1) * M,
                               sum_list (take M (drop (k * M)
                                 (losses T (train_loader epoch) (optimizer st) (cnn st))))
                                 / real M))
                      [0..<length (train_loader epoch) div M]
             \<and> running_loss st'
                 = sum_list (drop (length (train_loader epoch) div M * M)
                     (losses T (train_loader epoch) (optimizer st) (cnn st)))))"
proof (intro conjI impI)
  show "train_epoch T m train_loader epoch st
     = train_epoch T m train_loader epoch (st\<lparr>running_loss := 0\<rparr>)"
    by (simp add: train_epoch_def)
next
  assume h: "0 < M \<and> length (losses T (train_loader epoch) (optimizer st) (cnn st))
                = length (train_loader epoch)"
  then have "0 < M" and "length (losses T (train_loader epoch) (optimizer st) (cnn st))
                = length (train_loader epoch)"
    by simp_all
  then show "\<exists>st'. train_epoch T (int M) train_loader epoch st = Inr st'
             \<and> printed st' = printed st
                  @ map (\<lambda>k. (epoch + 1, (k + 1) * M,
                               sum_list (take M (drop (k * M)
                                 (losses T (train_loader epoch) (optimizer st) (cnn st))))
                                 / real M))
                      [0..<length (train_loader epoch) div M]
             \<and> running_loss st'
                 = sum_list (drop (length (train_loader epoch) div M * M)
                     (losses T (train_loader epoch) (optimizer st) (cnn st)))"
    by (rule train_epoch_run)
qed

theorem train_epoch_reports_witness:
  "\<exists>st'. train_epoch example_torch 2 example_loader 1
            \<lparr>cnn = CNN_init example_parameters, optimizer = (), running_loss = 1,
             printed = [(1, 2, 1)]\<rparr> = Inr st'
     \<and> printed st' = [(1, 2, 1), (2, 2, 1)] \<and> running_loss st' = 1"
proof -
  let ?st = "\<lparr>cnn = CNN_init example_parameters, optimizer = (), running_loss = 1,
             printed = [(1::nat, 2::nat, 1::real)]\<rparr>"
  have h: "0 < (2::nat) \<and> length (losses example_torch (example_loader 1) (optimizer ?st) (cnn ?st))
                = length (example_loader 1)"
    by (simp add: example_losses) (simp add: example_loader_def)
  have len: "length (example_loader e) = 3" for e by (simp add: example_loader_def)
  from train_epoch_reports [of example_torch 0 example_loader 1 ?st 2, THEN conjunct2, THEN mp, OF h]
  obtain st' where run: "train_epoch example_torch (int 2) example_loader 1 ?st = Inr st'"
    and p: "printed st' = printed ?st
              @ map (\<lambda>k. (1 + 1, (k + 1) * 2,
                     sum_list (take 2 (drop (k * 2)
                       (losses example_torch (example_loader 1) (optimizer ?st) (cnn ?st)))) / real 2))
                  [0..<length (example_loader 1) div 2]"
    and r: "running_loss st' = sum_list (drop (length (example_loader 1) div 2 * 2)
              (losses example_torch (example_loader 1) (optimizer ?st) (cnn ?st)))"
    by blast
  from p have p': "printed st' = [(1, 2, 1), (2, 2, 1)]" by (simp add: example_losses len)
  from r have r': "running_loss st' = 1" by (simp add: example_losses len)
  from run have "train_epoch example_torch 2 example_loader 1 ?st = Inr st'" by simp
  with p' r' show ?thesis by blast
qed

subsection \<open>Evaluation loop\<close>

lemma argmax_first:
  assumes "\<forall>i < length xs. \<not> xs ! 0 < xs ! i"
  shows "argmax xs = 0"
proof -
  have "fold (\<lambda>i best. if xs ! best < xs ! i then i else best) js 0 = 0"
    if "\<forall>i \<in> set js. i < length xs" for js
    using that assms by (induction js) simp_all
  from this [of "[0..<length xs]"] show ?thesis by (simp add: argmax_def)
qed

lemma argmax_zeros: "argmax (replicate n 0) = 0"
  by (rule argmax_first) simp

lemma torch_max_zeros: "0 < n \<Longrightarrow> torch_max (replicate k (replicate n 0)) = Inr (replicate k 0)"
  using map_err_const [of "replicate k (replicate n 0)"
          "\<lambda>row. if row = [] then Inl RuntimeError else Inr (argmax row)" 0]
  by (simp add: torch_max_def argmax_zeros)

lemma count_sample_error: "count_sample labels c i st = Inl e \<Longrightarrow> e = IndexError"
  by (auto simp: count_sample_def Let_def split: if_splits)

lemma count_sample_beyond: "length labels \<le> i \<Longrightarrow> count_sample labels c i st = Inl IndexError"
  by (simp add: count_sample_def)

text \<open>The loop over the samples raises when it runs beyond the batch.\<close>

lemma count_loop_beyond:
  "i \<le> length labels \<Longrightarrow> length labels < i + n
   \<Longrightarrow> fold_err (count_sample labels c) [i..<i + n] st = Inl IndexError"
proof (induction n arbitrary: i st)
  case 0
  then show ?case by simp
next
  case (Suc n)
  have u: "[i..<i + Suc n] = i # [Suc i..<Suc i + n]" by (simp add: upt_conv_Cons)
  show ?case
  proof (cases "count_sample labels c i st")
    case (Inl e)
    then have "e = IndexError" by (rule count_sample_error)
    with Inl u show ?thesis by simp
  next
    case (Inr st1)
    with Suc.prems have lt: "i < length labels"
      using count_sample_beyond [of labels i c st] by (cases "i < length labels") simp_all
    then have "Suc i \<le> length labels" by simp
    moreover from Suc.prems have "length labels < Suc i + n" by simp
    ultimately have "fold_err (count_sample labels c) [Suc i..<Suc i + n] st1 = Inl IndexError"
      by (rule Suc.IH)
    with Inr u show ?thesis by simp
  qed
qed

lemma eval_batch_short:
  assumes "forward (cnn st) images = Inr outputs" and "torch_max outputs = Inr predicted"
    and "length predicted = length labels" and "length labels < 4"
  shows "eval_batch (images, labels) st = Inl IndexError"
proof -
  have "fold_err (count_sample labels c) [0..<0 + 4] s = Inl IndexError" for c s
    using assms(4) by (intro count_loop_beyond) simp_all
  then have "fold_err (count_sample labels c) [0..<4] s = Inl IndexError" for c s
    by simp
  with assms(1-3) show ?thesis
    by (simp add: eval_batch_def Let_def del: upt_rec_numeral)
qed

lemma fold_err_append:
  "fold_err f (xs @ ys) s = bind_err (fold_err f xs s) (fold_err f ys)"
  by (induction xs arbitrary: s) (simp_all add: bind_err_def split: sum.splits)

text \<open>
  The loop over the first \<open>n\<close> samples of a batch that has them: the counter of class
  \<open>k\<close> grows by the number of these samples whose label is \<open>k\<close>, the counter of correct
  ones by the number of those that were predicted right.
\<close>

lemma count_loop_counts:
  assumes "n \<le> length labels" and "length c = length labels"
    and "\<forall>l \<in> set labels. unat l < 10"
    and "length (correct_class st) = 10" and "length (total_class st) = 10"
  shows "\<exists>st'. fold_err (count_sample labels c) [0..<n] st = Inr st'
           \<and> correct st' = correct st \<and> total st' = total st
           \<and> length (correct_class st') = 10 \<and> length (total_class st') = 10
           \<and> (\<forall>k < 10.
                 total_class st' ! k = total_class st ! k
                   + real (length (filter (\<lambda>i. unat (labels ! i) = k) [0..<n]))
               \<and> correct_class st' ! k = correct_class st ! k
                   + real (length (filter (\<lambda>i. unat (labels ! i) = k \<and> c ! i) [0..<n])))"
  using assms(1)
proof (induction n)
  case 0
  with assms(4,5) show ?case by simp
next
  case (Suc n)
  then have n: "n < length labels" by simp
  with Suc obtain s where
    run: "fold_err (count_sample labels c) [0..<n] st = Inr s"
    and keep: "correct s = correct st" "total s = total st"
    and len: "length (correct_class s) = 10" "length (total_class s) = 10"
    and cnt: "\<forall>k < 10.
                 total_class s ! k = total_class st ! k
                   + real (length (filter (\<lambda>i. unat (labels ! i) = k) [0..<n]))
               \<and> correct_class s ! k = correct_class st ! k
                   + real (length (filter (\<lambda>i. unat (labels ! i) = k \<and> c ! i) [0..<n]))"
    by auto
  let ?l = "unat (labels ! n)"
  from n assms(3) have l: "?l < 10" by simp
  let ?s' = "s\<lparr>correct_class := (correct_class s)[?l := correct_class s ! ?l + (if c ! n then 1 else 0)],
               total_class := (total_class s)[?l := total_class s ! ?l + 1]\<rparr>"
  have one: "count_sample labels c n s = Inr ?s'"
    using n l len assms(2) by (simp add: count_sample_def Let_def)
  have all: "fold_err (count_sample labels c) [0..<Suc n] st = Inr ?s'"
    by (simp add: fold_err_append run one)
  have "\<forall>k < 10.
          total_class ?s' ! k = total_class st ! k
            + real (length (filter (\<lambda>i. unat (labels ! i) = k) [0..<Suc n]))
        \<and> correct_class ?s' ! k = correct_class st ! k
            + real (length (filter (\<lambda>i. unat (labels ! i) = k \<and> c ! i) [0..<Suc n]))"
    using cnt len l by (simp add: nth_list_update)
  with all keep len show ?case by simp
qed

lemma eval_batch_full:
  assumes "forward (cnn st) images = Inr outputs" and "torch_max outputs = Inr predicted"
    and "length predicted = length labels" and "length labels = 4"
    and "\<forall>l \<in> set labels. unat l < 10"
    and "length (correct_class st) = 10" and "length (total_class st) = 10"
  shows "\<exists>st'. eval_batch (images, labels) st = Inr st'
           \<and> total st' = total st + 4
           \<and> correct st' = correct st
               + length (filter (\<lambda>i. predicted ! i = unat (labels ! i)) [0..<4])
           \<and> (\<forall>k < 10.
                 total_class st' ! k = total_class st ! k
                   + real (length (filter (\<lambda>i. unat (labels ! i) = k) [0..<4]))
               \<and> correct_class st' ! k = correct_class st ! k
                   + real (length (filter (\<lambda>i. unat (labels ! i) = k
                                             \<and> predicted ! i = unat (labels ! i)) [0..<4])))"
proof -
  let ?c = "map (\<lambda>(p, l). p = unat l) (zip predicted labels)"
  let ?st = "st\<lparr>total := total st + length labels,
                correct := correct st + length (filter (\<lambda>b. b) ?c)\<rparr>"
  have ci: "?c ! i = (predicted ! i = unat (labels ! i))" if "i < 4" for i
    using that assms(3,4) by simp
  have c: "?c = map (\<lambda>i. predicted ! i = unat (labels ! i)) [0..<4]"
    using assms(3,4) by (intro nth_equalityI) (simp_all del: upt_rec_numeral)
  have nc: "length (filter (\<lambda>b. b) ?c)
              = length (filter (\<lambda>i. predicted ! i = unat (labels ! i)) [0..<4])"
    unfolding c by (simp add: filter_map comp_def del: upt_rec_numeral)
  have "4 \<le> length labels" and "length ?c = length labels"
    using assms(3,4) by simp_all
  from count_loop_counts [OF this assms(5), of ?st] assms(6,7) obtain st' where
    run: "fold_err (count_sample labels ?c) [0..<4] ?st = Inr st'"
    and keep: "correct st' = correct ?st" "total st' = total ?st"
    and cnt: "\<forall>k < 10.
                 total_class st' ! k = total_class ?st ! k
                   + real (length (filter (\<lambda>i. unat (labels ! i) = k) [0..<4]))
               \<and> correct_class st' ! k = correct_class ?st ! k
                   + real (length (filter (\<lambda>i. unat (labels ! i) = k \<and> ?c ! i) [0..<4]))"
    by auto
  have f: "filter (\<lambda>i. unat (labels ! i) = k \<and> ?c ! i) [0..<4]
         = filter (\<lambda>i. unat (labels ! i) = k \<and> predicted ! i = unat (labels ! i)) [0..<4]" for k
    by (rule filter_cong [OF refl]) (simp add: ci del: upt_rec_numeral)
  have e: "eval_batch (images, labels) st = Inr st'"
    using assms(1-3) run by (simp add: eval_batch_def Let_def del: upt_rec_numeral)
  from keep nc assms(4) have t: "total st' = total st + 4"
    and k: "correct st' = correct st
               + length (filter (\<lambda>i. predicted ! i = unat (labels ! i)) [0..<4])"
    by simp_all
  from cnt have "\<forall>k < 10.
                 total_class st' ! k = total_class st ! k
                   + real (length (filter (\<lambda>i. unat (labels ! i) = k) [0..<4]))
               \<and> correct_class st' ! k = correct_class st ! k
                   + real (length (filter (\<lambda>i. unat (labels ! i) = k
                                             \<and> predicted ! i = unat (labels ! i)) [0..<4]))"
    by (simp only: f) simp
  with e t k show ?thesis by blast
qed

lemma example_batch_forward:
  "forward (CNN_init example_parameters) (replicate k example_image)
     = Inr (replicate k (replicate 10 0))"
  using example_forward [OF example_image_shape [of k]] by simp

lemma example_full_batch:
  "eval_batch (replicate 4 example_image, [0, 0, 0, 0])
     \<lparr>cnn = CNN_init example_parameters, correct = 0, total = 0,
      correct_class = replicate 10 0, total_class = replicate 10 0\<rparr>
   = Inr \<lparr>cnn = CNN_init example_parameters, correct = 4, total = 4,
          correct_class = [4, 0, 0, 0, 0, 0, 0, 0, 0, 0],
          total_class = [4, 0, 0, 0, 0, 0, 0, 0, 0, 0]\<rparr>"
proof -
  have z: "zip (replicate 4 (0::nat)) [0, 0, 0, 0::8 word] = [(0, 0), (0, 0), (0, 0), (0, 0)]"
    by (simp add: numeral_eq_Suc)
  have r: "replicate 10 (0::real) = [0, 0, 0, 0, 0, 0, 0, 0, 0, 0]"
    by (simp add: numeral_eq_Suc)
  have u: "[0..<4] = [0, 1, 2, 3]" by (simp add: upt_conv_Cons)
  show ?thesis
    by (simp add: eval_batch_def example_batch_forward torch_max_zeros z Let_def)
       (simp add: u r count_sample_def Let_def)
qed

text \<open>
  The loop over the samples is \<^verbatim>\<open>for i in range(4)\<close> whatever the size of the batch:
  on a test set of six samples, a batch of four and one of two, the evaluation raises
  \<^verbatim>\<open>IndexError\<close> at \<^verbatim>\<open>labels[2]\<close> of the second batch (\<open>eval_batch_short\<close>).
\<close>

lemma evaluate_partial_batch_raises:
  "evaluate example_test_loader (CNN_init example_parameters) = Inl IndexError"
proof -
  let ?st1 = "\<lparr>cnn = CNN_init example_parameters, correct = 4, total = 4,
          correct_class = [4, 0, 0, 0, 0, 0, 0, 0, 0, 0],
          total_class = [4, 0, 0, 0, 0, 0, 0, 0, 0, 0]\<rparr>"
  have "forward (cnn ?st1) (replicate 2 example_image) = Inr (replicate 2 (replicate 10 0))"
    by (simp add: example_batch_forward)
  moreover have "torch_max (replicate 2 (replicate 10 0)) = Inr (replicate 2 0)"
    by (simp add: torch_max_zeros)
  moreover have "length (replicate 2 (0::nat)) = length [0, 0::8 word]" by simp
  moreover have "length [0, 0::8 word] < 4" by simp
  ultimately have "eval_batch (replicate 2 example_image, [0, 0]) ?st1 = Inl IndexError"
    by (rule eval_batch_short)
  then show ?thesis
    by (simp add: evaluate_def example_test_loader_def example_full_batch)
qed

text \<open>
  Claim C9, as stated, fails: over an empty set of batches \<open>total\<close> stays 0 and the
  report divides by it.
\<close>

theorem evaluate_empty_counterexample:
  "evaluate_and_report [] (CNN_init example_parameters) = Inl ZeroDivisionError"
  by (simp add: evaluate_and_report_def evaluate_def report_def overall_accuracy_def)

text \<open>
  Claim C9, amended.  Over an empty set of batches the loop ends at once with
  \<open>total = 0\<close> and \<open>correct = 0\<close>, and \<^verbatim>\<open>100*correct/total\<close> in the report of the
  overall accuracy raises \<^verbatim>\<open>ZeroDivisionError\<close>: nothing guards the division.
\<close>

theorem evaluate_empty_divides_by_zero:
  "evaluate [] net = Inr \<lparr>cnn = net, correct = 0, total = 0,
                          correct_class = replicate 10 0, total_class = replicate 10 0\<rparr>
   \<and> (\<exists>st. evaluate [] net = Inr st \<and> total st = 0 \<and> correct st = 0
          \<and> overall_accuracy st = Inl ZeroDivisionError)
   \<and> evaluate_and_report [] net = Inl ZeroDivisionError"
  by (simp add: evaluate_and_report_def evaluate_def report_def overall_accuracy_def)

lemma count_sample_cnn: "count_sample labels c i st = Inr st' \<Longrightarrow> cnn st' = cnn st"
  by (auto simp: count_sample_def Let_def split: if_splits)

lemma fold_err_preserves:
  assumes "\<And>x s s'. f x s = Inr s' \<Longrightarrow> g s' = g s"
  shows "fold_err f xs s = Inr s' \<Longrightarrow> g s' = g s"
proof (induction xs arbitrary: s)
  case Nil
  then show ?case by simp
next
  case (Cons x xs)
  then obtain s1 where s1: "f x s = Inr s1" and rest: "fold_err f xs s1 = Inr s'"
    by (cases "f x s") simp_all
  from rest have "g s' = g s1" by (rule Cons.IH)
  with assms [OF s1] show ?case by simp
qed

lemma eval_batch_cnn:
  assumes "eval_batch data st = Inr st'"
  shows "cnn st' = cnn st"
proof -
  obtain images labels where d: "data = (images, labels)" by (cases data)
  from assms d obtain outputs where o: "forward (cnn st) images = Inr outputs"
    by (cases "forward (cnn st) images") (simp_all add: eval_batch_def)
  from assms d o obtain predicted where p: "torch_max outputs = Inr predicted"
    by (cases "torch_max outputs") (simp_all add: eval_batch_def)
  let ?c = "map (\<lambda>(p, l). p = unat l) (zip predicted labels)"
  let ?st = "st\<lparr>total := total st + length labels,
                correct := correct st + length (filter (\<lambda>b. b) ?c)\<rparr>"
  from assms d o p have "fold_err (count_sample labels ?c) [0..<4] ?st = Inr st'"
    by (simp add: eval_batch_def Let_def split: if_splits del: upt_rec_numeral)
  then have "cnn st' = cnn ?st"
    using count_sample_cnn by (rule fold_err_preserves [rotated])
  then show ?thesis by simp
qed

text \<open>
  Claim C10.  The evaluation only runs the forward pass: whatever the batches, from any
  state of the counters, the network after the loop is the network before it.
\<close>

theorem evaluate_keeps_parameters:
  "(fold_err eval_batch test_loader st = Inr st' \<longrightarrow> cnn st' = cnn st)
   \<and> (evaluate test_loader net = Inr st' \<longrightarrow> cnn st' = net)"
proof (intro conjI impI)
  assume "fold_err eval_batch test_loader st = Inr st'"
  then show "cnn st' = cnn st"
    using eval_batch_cnn by (rule fold_err_preserves [rotated])
next
  assume "evaluate test_loader net = Inr st'"
  then have "fold_err eval_batch test_loader
       \<lparr>cnn = net, correct = 0, total = 0,
        correct_class = replicate 10 0, total_class = replicate 10 0\<rparr> = Inr st'"
    by (simp add: evaluate_def)
  then have "cnn st' = cnn \<lparr>cnn = net, correct = 0, total = 0,
        correct_class = replicate 10 0, total_class = replicate 10 0\<rparr>"
    using eval_batch_cnn by (rule fold_err_preserves [rotated])
  then show "cnn st' = net" by simp
qed

theorem evaluate_keeps_parameters_witness:
  "evaluate [(replicate 4 example_image, [0, 0, 0, 0])] (CNN_init example_parameters)
     = Inr \<lparr>cnn = CNN_init example_parameters, correct = 4, total = 4,
            correct_class = [4, 0, 0, 0, 0, 0, 0, 0, 0, 0],
            total_class = [4, 0, 0, 0, 0, 0, 0, 0, 0, 0]\<rparr>
   \<and> cnn \<lparr>cnn = CNN_init example_parameters, correct = 4, total = 4,
            correct_class = [4, 0, 0, 0, 0, 0, 0, 0, 0, 0],
            total_class = [4, 0, 0, 0, 0, 0, 0, 0, 0, 0]\<rparr> = CNN_init example_parameters"
proof -
  have run: "evaluate [(replicate 4 example_image, [0, 0, 0, 0])] (CNN_init example_parameters)
     = Inr \<lparr>cnn = CNN_init example_parameters, correct = 4, total = 4,
            correct_class = [4, 0, 0, 0, 0, 0, 0, 0, 0, 0],
            total_class = [4, 0, 0, 0, 0, 0, 0, 0, 0, 0]\<rparr>"
    by (simp add: evaluate_def example_full_batch)
  from run evaluate_keeps_parameters [THEN conjunct2, THEN mp, OF run]
  show ?thesis by (rule conjI)
qed

subsection \<open>Evaluation loop: the state at an exception\<close>

text \<open>The loop that keeps the state agrees with the loop that does not.\<close>

lemma outcome_result_simps [simp]:
  "outcome_result (s, None) = Inr s" "outcome_result (s, Some e) = Inl e"
  by (simp_all add: outcome_result_def)

lemma count_sample_outcome:
  "count_sample labels c i st = outcome_result (count_sample_at labels c i st)"
  by (simp add: count_sample_def count_sample_at_def Let_def)

lemma fold_err_outcome:
  assumes "\<And>x s. f x s = outcome_result (g x s)"
  shows "fold_err f xs s = outcome_result (fold_exc g xs s)"
proof (induction xs arbitrary: s)
  case Nil
  then show ?case by simp
next
  case (Cons x xs)
  obtain s' r where g: "g x s = (s', r)" by (cases "g x s")
  show ?case
  proof (cases r)
    case None
    with g assms [of x s] Cons show ?thesis by simp
  next
    case (Some e)
    with g assms [of x s] show ?thesis by simp
  qed
qed

lemma eval_batch_outcome: "eval_batch data st = outcome_result (eval_batch_at data st)"
proof -
  have "fold_err (count_sample labels c) is s
          = outcome_result (fold_exc (count_sample_at labels c) is s)" for labels c "is" s
    by (rule fold_err_outcome) (rule count_sample_outcome)
  then show ?thesis
    by (simp add: eval_batch_def eval_batch_at_def Let_def bind_err_def
          split: prod.splits sum.splits del: upt_rec_numeral)
qed

lemma evaluate_outcome: "evaluate test_loader net = outcome_result (evaluate_at test_loader net)"
  unfolding evaluate_def evaluate_at_def
  by (rule fold_err_outcome) (rule eval_batch_outcome)

lemma fold_exc_append:
  "fold_exc f (xs @ ys) s
     = (case fold_exc f xs s of (s', None) \<Rightarrow> fold_exc f ys s' | (s', Some e) \<Rightarrow> (s', Some e))"
  by (induction xs arbitrary: s) (simp_all split: prod.splits option.splits)

lemma outcome_Inr: "outcome_result r = Inr s \<Longrightarrow> r = (s, None)"
  by (cases r) (auto simp: outcome_result_def split: option.splits)

lemma forward_ok:
  assumes "\<forall>s \<in> set x. shape3 1 28 28 s"
  shows "\<exists>ys. forward (CNN_init p) x = Inr ys \<and> length ys = length x
            \<and> (\<forall>y \<in> set ys. length y = 10)"
proof -
  from features_ok [OF assms, of p] obtain h where
    h: "features (CNN_init p) x = Inr h" "length h = length x" "\<forall>v \<in> set h. length v = 50"
    by blast
  have "\<forall>v \<in> set h. \<exists>y. linear_apply (fc2 (CNN_init p)) v = Inr y \<and> length y = 10"
  proof
    fix v assume "v \<in> set h"
    with h(3) have "length v = in_features (fc2 (CNN_init p))"
      by (simp add: CNN_init_def Linear_def)
    from linear_shape [OF this]
    show "\<exists>y. linear_apply (fc2 (CNN_init p)) v = Inr y \<and> length y = 10"
      by (simp add: CNN_init_def Linear_def)
  qed
  from map_err_all [OF this] obtain zs where
    zs: "map_err (linear_apply (fc2 (CNN_init p))) h = Inr zs" "length zs = length h"
      "\<forall>z \<in> set zs. length z = 10"
    by blast
  have "forward (CNN_init p) x = Inr (map (map relu) zs)"
    by (simp add: forward_features h(1) zs(1))
  with zs h(2) show ?thesis by simp
qed

lemma map_err_total:
  "\<forall>x \<in> set xs. f x = Inr (g x) \<Longrightarrow> map_err f xs = Inr (map g xs)"
  by (induction xs) simp_all

lemma torch_max_ok:
  "\<forall>y \<in> set outputs. y \<noteq> [] \<Longrightarrow> torch_max outputs = Inr (map argmax outputs)"
  unfolding torch_max_def by (rule map_err_total) simp

lemma count_loop_at:
  assumes "n \<le> length labels" and "length c = length labels"
    and "\<forall>l \<in> set labels. unat l < 10"
    and "length (correct_class st) = 10" and "length (total_class st) = 10"
  shows "\<exists>st'. fold_exc (count_sample_at labels c) [0..<n] st = (st', None)
           \<and> cnn st' = cnn st \<and> correct st' = correct st \<and> total st' = total st
           \<and> length (correct_class st') = 10 \<and> length (total_class st') = 10
           \<and> (\<forall>k < 10.
                 total_class st' ! k = total_class st ! k
                   + real (length (filter (\<lambda>i. unat (labels ! i) = k) [0..<n]))
               \<and> correct_class st' ! k = correct_class st ! k
                   + real (length (filter (\<lambda>i. unat (labels ! i) = k \<and> c ! i) [0..<n])))"
proof -
  from count_loop_counts [OF assms] obtain st' where
    run: "fold_err (count_sample labels c) [0..<n] st = Inr st'"
    and rest: "correct st' = correct st" "total st' = total st"
      "length (correct_class st') = 10" "length (total_class st') = 10"
      "\<forall>k < 10.
                 total_class st' ! k = total_class st ! k
                   + real (length (filter (\<lambda>i. unat (labels ! i) = k) [0..<n]))
               \<and> correct_class st' ! k = correct_class st ! k
                   + real (length (filter (\<lambda>i. unat (labels ! i) = k \<and> c ! i) [0..<n]))"
    by blast
  have "fold_err (count_sample labels c) [0..<n] st
          = outcome_result (fold_exc (count_sample_at labels c) [0..<n] st)"
    by (rule fold_err_outcome) (rule count_sample_outcome)
  with run have at: "fold_exc (count_sample_at labels c) [0..<n] st = (st', None)"
    by (simp add: outcome_Inr)
  from run have "cnn st' = cnn st"
    using count_sample_cnn by (rule fold_err_preserves [rotated])
  with at rest show ?thesis by blast
qed

text \<open>The loop over \<open>range(4)\<close> on a batch of \<open>n \<le> 4\<close> samples: the \<open>n\<close> samples are
  counted, and a batch of fewer than four then raises at \<open>labels[n]\<close>.\<close>

lemma count_loop_range4:
  assumes "length labels \<le> 4" and "length c = length labels"
    and "\<forall>l \<in> set labels. unat l < 10"
    and "length (correct_class st) = 10" and "length (total_class st) = 10"
  shows "\<exists>st'. fold_exc (count_sample_at labels c) [0..<4] st
               = (st', if length labels < 4 then Some IndexError else None)
           \<and> cnn st' = cnn st \<and> correct st' = correct st \<and> total st' = total st
           \<and> length (correct_class st') = 10 \<and> length (total_class st') = 10
           \<and> (\<forall>k < 10.
                 total_class st' ! k = total_class st ! k
                   + real (length (filter (\<lambda>i. unat (labels ! i) = k) [0..<length labels]))
               \<and> correct_class st' ! k = correct_class st ! k
                   + real (length (filter (\<lambda>i. unat (labels ! i) = k \<and> c ! i)
                                     [0..<length labels])))"
proof -
  let ?n = "length labels"
  have "?n \<le> length labels" by simp
  from count_loop_at [OF this assms(2-5)] obtain st' where
    run: "fold_exc (count_sample_at labels c) [0..<?n] st = (st', None)"
    and rest: "cnn st' = cnn st" "correct st' = correct st" "total st' = total st"
      "length (correct_class st') = 10" "length (total_class st') = 10"
      "\<forall>k < 10.
                 total_class st' ! k = total_class st ! k
                   + real (length (filter (\<lambda>i. unat (labels ! i) = k) [0..<?n]))
               \<and> correct_class st' ! k = correct_class st ! k
                   + real (length (filter (\<lambda>i. unat (labels ! i) = k \<and> c ! i) [0..<?n]))"
    by blast
  have "fold_exc (count_sample_at labels c) [0..<4] st
          = (st', if ?n < 4 then Some IndexError else None)"
  proof (cases "?n < 4")
    case True
    then have "[0..<4] = [0..<?n] @ ?n # [Suc ?n..<4]"
      by (metis less_imp_le_nat upt_add_eq_append upt_conv_Cons le0 add_0 le_add_diff_inverse)
    moreover have "count_sample_at labels c ?n st' = (st', Some IndexError)"
      by (simp add: count_sample_at_def)
    ultimately show ?thesis using run True
      by (simp add: fold_exc_append del: upt_rec_numeral)
  next
    case False
    with assms(1) have "?n = 4" by simp
    with run False show ?thesis by simp
  qed
  with rest show ?thesis by blast
qed

text \<open>
  Claim C3.  The loader is built with \<^verbatim>\<open>batch_size=4\<close>, so a batch has four samples, or
  fewer when it is the last one.  On such a batch of images of the right shape, with
  labels in 0..9, every sample is counted under its true label: \<open>total_class\<close> of
  class \<open>k\<close> grows by the number of samples of the batch labelled \<open>k\<close>, and
  \<open>correct_class\<close> of \<open>k\<close> by the number of those whose predicted label (the arg-max
  of their scores) is \<open>k\<close> too.  This is the state the loop leaves: after a batch of
  four it goes on; after a batch of fewer it has counted all the samples of the batch
  when \<^verbatim>\<open>labels[n]\<close> raises \<^verbatim>\<open>IndexError\<close>.
\<close>

theorem eval_batch_counts_every_sample:
  "cnn st = CNN_init p \<and> (\<forall>s \<in> set images. shape3 1 28 28 s)
     \<and> length images = length labels \<and> length labels \<le> 4
     \<and> (\<forall>l \<in> set labels. unat l < 10)
     \<and> length (correct_class st) = 10 \<and> length (total_class st) = 10
   \<longrightarrow> (\<exists>outputs st'.
         forward (cnn st) images = Inr outputs
         \<and> eval_batch_at (images, labels) st
             = (st', if length labels < 4 then Some IndexError else None)
         \<and> cnn st' = cnn st
         \<and> length (correct_class st') = 10 \<and> length (total_class st') = 10
         \<and> total st' = total st + length labels
         \<and> correct st' = correct st
             + length (filter (\<lambda>i. argmax (outputs ! i) = unat (labels ! i)) [0..<length labels])
         \<and> (\<forall>k < 10.
               total_class st' ! k = total_class st ! k
                 + real (length (filter (\<lambda>i. unat (labels ! i) = k) [0..<length labels]))
             \<and> correct_class st' ! k = correct_class st ! k
                 + real (length (filter (\<lambda>i. unat (labels ! i) = k \<and> argmax (outputs ! i) = k)
                                   [0..<length labels]))))"
proof
  assume h: "cnn st = CNN_init p \<and> (\<forall>s \<in> set images. shape3 1 28 28 s)
     \<and> length images = length labels \<and> length labels \<le> 4
     \<and> (\<forall>l \<in> set labels. unat l < 10)
     \<and> length (correct_class st) = 10 \<and> length (total_class st) = 10"
  let ?n = "length labels"
  from h have net: "cnn st = CNN_init p" and sh: "\<forall>s \<in> set images. shape3 1 28 28 s"
    and len: "length images = ?n" and n4: "?n \<le> 4"
    and lab: "\<forall>l \<in> set labels. unat l < 10"
    and l1: "length (correct_class st) = 10" and l2: "length (total_class st) = 10"
    by blast+
  from forward_ok [OF sh, of p] net obtain outputs where
    out: "forward (cnn st) images = Inr outputs" and lo: "length outputs = length images"
    and rows: "\<forall>y \<in> set outputs. length y = 10"
    by auto
  from rows have "\<forall>y \<in> set outputs. y \<noteq> []" by auto
  then have tm: "torch_max outputs = Inr (map argmax outputs)" by (rule torch_max_ok)
  let ?pred = "map argmax outputs"
  let ?c = "map (\<lambda>(p, l). p = unat l) (zip ?pred labels)"
  let ?st = "st\<lparr>total := total st + ?n, correct := correct st + length (filter (\<lambda>b. b) ?c)\<rparr>"
  have lp: "length ?pred = ?n" using lo len by simp
  have ci: "?c ! i = (argmax (outputs ! i) = unat (labels ! i))" if "i < ?n" for i
    using that lo len by simp
  have c: "?c = map (\<lambda>i. argmax (outputs ! i) = unat (labels ! i)) [0..<?n]"
    using lo len by (intro nth_equalityI) simp_all
  have nc: "length (filter (\<lambda>b. b) ?c)
              = length (filter (\<lambda>i. argmax (outputs ! i) = unat (labels ! i)) [0..<?n])"
    unfolding c by (simp add: filter_map comp_def)
  have lc: "length ?c = ?n" using lo len by simp
  have "length (correct_class ?st) = 10" and "length (total_class ?st) = 10"
    using l1 l2 by simp_all
  from count_loop_range4 [OF n4 lc lab this] obtain st' where
    run: "fold_exc (count_sample_at labels ?c) [0..<4] ?st
            = (st', if ?n < 4 then Some IndexError else None)"
    and keep: "cnn st' = cnn ?st" "correct st' = correct ?st" "total st' = total ?st"
      "length (correct_class st') = 10" "length (total_class st') = 10"
    and cnt: "\<forall>k < 10.
                 total_class st' ! k = total_class ?st ! k
                   + real (length (filter (\<lambda>i. unat (labels ! i) = k) [0..<?n]))
               \<and> correct_class st' ! k = correct_class ?st ! k
                   + real (length (filter (\<lambda>i. unat (labels ! i) = k \<and> ?c ! i) [0..<?n]))"
    by blast
  have f: "filter (\<lambda>i. unat (labels ! i) = k \<and> ?c ! i) [0..<?n]
         = filter (\<lambda>i. unat (labels ! i) = k \<and> argmax (outputs ! i) = k) [0..<?n]" for k
    by (rule filter_cong [OF refl]) (auto simp: ci)
  have e: "eval_batch_at (images, labels) st = (st', if ?n < 4 then Some IndexError else None)"
    using out tm lp run by (simp add: eval_batch_at_def Let_def del: upt_rec_numeral)
  from keep have k1: "cnn st' = cnn st" and k2: "total st' = total st + ?n"
    by simp_all
  have cs: "correct ?st = correct st + length (filter (\<lambda>b. b) ?c)" by simp
  have k3: "correct st' = correct st
               + length (filter (\<lambda>i. argmax (outputs ! i) = unat (labels ! i)) [0..<?n])"
    using keep(2) cs nc by linarith
  from cnt have k4: "\<forall>k < 10.
               total_class st' ! k = total_class st ! k
                 + real (length (filter (\<lambda>i. unat (labels ! i) = k) [0..<?n]))
             \<and> correct_class st' ! k = correct_class st ! k
                 + real (length (filter (\<lambda>i. unat (labels ! i) = k \<and> argmax (outputs ! i) = k)
                                   [0..<?n]))"
    by (simp only: f) simp
  from out e k1 keep(4,5) k2 k3 k4
  show "\<exists>outputs st'.
         forward (cnn st) images = Inr outputs
         \<and> eval_batch_at (images, labels) st
             = (st', if length labels < 4 then Some IndexError else None)
         \<and> cnn st' = cnn st
         \<and> length (correct_class st') = 10 \<and> length (total_class st') = 10
         \<and> total st' = total st + length labels
         \<and> correct st' = correct st
             + length (filter (\<lambda>i. argmax (outputs ! i) = unat (labels ! i)) [0..<length labels])
         \<and> (\<forall>k < 10.
               total_class st' ! k = total_class st ! k
                 + real (length (filter (\<lambda>i. unat (labels ! i) = k) [0..<length labels]))
             \<and> correct_class st' ! k = correct_class st ! k
                 + real (length (filter (\<lambda>i. unat (labels ! i) = k \<and> argmax (outputs ! i) = k)
                                   [0..<length labels])))"
    by blast
qed

theorem eval_batch_counts_every_sample_witness:
  "\<exists>st'. eval_batch_at (replicate 2 example_image, [0, 0])
            \<lparr>cnn = CNN_init example_parameters, correct = 4, total = 4,
             correct_class = [4, 0, 0, 0, 0, 0, 0, 0, 0, 0],
             total_class = [4, 0, 0, 0, 0, 0, 0, 0, 0, 0]\<rparr> = (st', Some IndexError)
     \<and> total st' = 6 \<and> correct st' = 6
     \<and> total_class st' ! 0 = 6 \<and> correct_class st' ! 0 = 6 \<and> total_class st' ! 1 = 0"
proof -
  let ?st = "\<lparr>cnn = CNN_init example_parameters, correct = 4, total = 4,
             correct_class = [4, 0, 0, 0, 0, 0, 0, 0, 0, 0::real],
             total_class = [4, 0, 0, 0, 0, 0, 0, 0, 0, 0::real]\<rparr>"
  let ?images = "replicate 2 example_image"
  let ?labels = "[0, 0::8 word]"
  have h: "cnn ?st = CNN_init example_parameters \<and> (\<forall>s \<in> set ?images. shape3 1 28 28 s)
     \<and> length ?images = length ?labels \<and> length ?labels \<le> 4
     \<and> (\<forall>l \<in> set ?labels. unat l < 10)
     \<and> length (correct_class ?st) = 10 \<and> length (total_class ?st) = 10"
    using example_image_shape [of 2] by simp
  from eval_batch_counts_every_sample [of ?st example_parameters ?images ?labels, THEN mp, OF h]
  obtain outputs st' where
    out: "forward (cnn ?st) ?images = Inr outputs"
    and run: "eval_batch_at (?images, ?labels) ?st
                = (st', if length ?labels < 4 then Some IndexError else None)"
    and t: "total st' = total ?st + length ?labels"
    and c: "correct st' = correct ?st
             + length (filter (\<lambda>i. argmax (outputs ! i) = unat (?labels ! i)) [0..<length ?labels])"
    and k: "\<forall>k < 10.
               total_class st' ! k = total_class ?st ! k
                 + real (length (filter (\<lambda>i. unat (?labels ! i) = k) [0..<length ?labels]))
             \<and> correct_class st' ! k = correct_class ?st ! k
                 + real (length (filter (\<lambda>i. unat (?labels ! i) = k \<and> argmax (outputs ! i) = k)
                                   [0..<length ?labels]))"
    by blast
  have u: "[0..<length ?labels] = [0, 1]" by (simp add: upt_conv_Cons)
  from out have o: "outputs = replicate 2 (replicate 10 0)"
    by (simp add: example_batch_forward)
  have a: "argmax (outputs ! i) = 0" if "i < 2" for i
    using that by (simp add: o argmax_zeros)
  from run have r: "eval_batch_at (?images, ?labels) ?st = (st', Some IndexError)" by simp
  from t have t': "total st' = 6" by simp
  from c have c': "correct st' = 6" by (simp add: u a)
  from k have "total_class st' ! 0 = total_class ?st ! 0
                 + real (length (filter (\<lambda>i. unat (?labels ! i) = 0) [0..<length ?labels]))
             \<and> correct_class st' ! 0 = correct_class ?st ! 0
                 + real (length (filter (\<lambda>i. unat (?labels ! i) = 0 \<and> argmax (outputs ! i) = 0)
                                   [0..<length ?labels]))"
    by simp
  then have k0: "total_class st' ! 0 = 6 \<and> correct_class st' ! 0 = 6" by (simp add: u a)
  from k have "total_class st' ! 1 = total_class ?st ! 1
                 + real (length (filter (\<lambda>i. unat (?labels ! i) = 1) [0..<length ?labels]))"
    by simp
  then have k1: "total_class st' ! 1 = 0" by (simp add: u)
  from r t' c' k0 k1 show ?thesis by blast
qed

subsection \<open>From the files to the scores\<close>

text \<open>
  The images as the reader returns them go through the preprocessing and come out as
  samples of the shape the classifier takes.
\<close>

lemma preprocess_shape:
  assumes "\<forall>row \<in> set X. length row = 784"
  shows "\<exists>t. preprocess X = Inr t \<and> length t = length X \<and> (\<forall>s \<in> set t. shape3 1 28 28 s)"
proof -
  let ?Y = "standardize (to_float X)"
  have rows: "\<forall>row \<in> set ?Y. length row = 784"
    using assms by (auto simp: standardize_def to_float_def)
  then have run: "preprocess X = Inr (map (\<lambda>row. [rows_of 28 28 row]) ?Y)"
    unfolding preprocess_def by (rule reshape_images_eq)
  have "shape3 1 28 28 [rows_of 28 28 row]" if "row \<in> set ?Y" for row
  proof -
    from rows that have "length row = 28 * 28" by simp
    then have "\<forall>r \<in> set (rows_of 28 28 row). length r = 28"
      using rows_of_row_length by blast
    then show ?thesis by (simp add: shape3_def length_rows_of)
  qed
  then have "\<forall>s \<in> set (map (\<lambda>row. [rows_of 28 28 row]) ?Y). shape3 1 28 28 s" by auto
  moreover have "length (map (\<lambda>row. [rows_of 28 28 row]) ?Y) = length X"
    by (simp add: standardize_def to_float_def)
  ultimately show ?thesis using run by blast
qed

text \<open>
  From valid files to scores: reading, preprocessing and the forward pass all succeed,
  with one vector of ten scores per label.
\<close>

lemma pipeline_forward:
  assumes "8 \<le> length lb" and "length img = 16 + 784 * (length lb - 8)"
  shows "\<exists>images labels t ys.
           load_fmnist (Some lb) (Some img) = Inr (images, labels)
           \<and> preprocess images = Inr t
           \<and> forward (CNN_init p) t = Inr ys
           \<and> length ys = length labels \<and> (\<forall>y \<in> set ys. length y = 10)"
proof -
  let ?n = "length lb - 8"
  let ?images = "rows_of ?n 784 (drop 16 img)"
  have run: "load_fmnist (Some lb) (Some img) = Inr (?images, drop 8 lb)"
    using assms by (rule load_fmnist_ok)
  from assms(2) have "length (drop 16 img) = ?n * 784" by simp
  then have "\<forall>row \<in> set ?images. length row = 784"
    using rows_of_row_length by blast
  from preprocess_shape [OF this] obtain t where
    t: "preprocess ?images = Inr t" "length t = length ?images" "\<forall>s \<in> set t. shape3 1 28 28 s"
    by blast
  from features_ok [OF t(3), of p] obtain h where
    h: "features (CNN_init p) t = Inr h" "length h = length t" "\<forall>v \<in> set h. length v = 50"
    by blast
  have "\<forall>v \<in> set h. \<exists>y. linear_apply (fc2 (CNN_init p)) v = Inr y \<and> length y = 10"
  proof
    fix v assume "v \<in> set h"
    with h(3) have "length v = in_features (fc2 (CNN_init p))"
      by (simp add: CNN_init_def Linear_def)
    from linear_shape [OF this]
    show "\<exists>y. linear_apply (fc2 (CNN_init p)) v = Inr y \<and> length y = 10"
      by (simp add: CNN_init_def Linear_def)
  qed
  from map_err_all [OF this] obtain zs where
    zs: "map_err (linear_apply (fc2 (CNN_init p))) h = Inr zs" "length zs = length h"
      "\<forall>z \<in> set zs. length z = 10"
    by blast
  have f: "forward (CNN_init p) t = Inr (map (map relu) zs)"
    by (simp add: forward_features h(1) zs(1))
  have "length (map (map relu) zs) = length (drop 8 lb)"
    using zs(2) h(2) t(2) by (simp add: length_rows_of)
  moreover have "\<forall>y \<in> set (map (map relu) zs). length y = 10" using zs(3) by simp
  ultimately show ?thesis using run t(1) f by blast
qed

end
